theory Spec2Isabelle
  imports Main "HOL-Library.Sublist" "HOL-Library.Char_ord" "HOL-Library.List_Lexorder"
    "HOL-Library.Word"
begin

section \<open>Data model\<close>

text \<open>
  A Go \<open>error\<close> value is opaque to the library; the model keeps where it came from:
  \<open>client.Do\<close>, \<open>json.Decoder.Decode\<close> or \<open>resp.Body.Close\<close>.
\<close>

datatype error = TransportError string | DecodeError string | CloseError string

text \<open>
  \<open>ListAlbumsResponse\<close>, \<open>ListMediaItemsResponse\<close> and \<open>SearchMediaItemResponse\<close> have the
  same shape: a slice of items (\<open>Albums\<close>, resp. \<open>MediaItems\<close>) and \<open>NextPageToken\<close>. The
  item type (\<open>Album\<close>, \<open>MediaItem\<close>) is a payload the pagination loop never inspects.
\<close>

record 'a Page =
  Items :: "'a list"
  NextPageToken :: string

section \<open>The pagination goroutine of \<open>List\<close> (albums), \<open>List\<close> (mediaitems) and \<open>Search\<close>\<close>

text \<open>
  The three exported functions start the same goroutine; they differ in the single-page
  fetch they call (\<open>list\<close>, \<open>list\<close>, \<open>search\<close>) and in the request type whose \<open>PageToken\<close>
  field they overwrite. The goroutine is embedded once, with the fetch and the token
  assignment as parameters:

  \<^verbatim>\<open>
  go func(req ListAlbumsRequest) {
      defer close(albumCh)
      for {
          select {                              // LoopHead
          case <-ctx.Done(): return
          default:
          }
          albumsResp, err := list(ctx, client, req)
          if err != nil {
              errCh <- err                      // SendErr err
              return // TODO continue?
          }
          for _, album := range albumsResp.Albums {
              select {                          // Emit (album # rest) token
              case <-ctx.Done(): return
              case albumCh <- album:
              }
          }
          if albumsResp.NextPageToken == "" {   // Emit [] token
              return // exit
          }
          req.PageToken = albumsResp.NextPageToken
      }
  }(listAlbumsRequest)
  \<close>

  The program counter names the places where the goroutine can stand. \<open>Ret\<close> is a
  \<open>return\<close> whose deferred \<open>close(albumCh)\<close> has not run yet, \<open>Halted\<close> the finished
  goroutine.
\<close>

datatype 'a pc = LoopHead | SendErr error | Emit "'a list" string | Ret | Halted

text \<open>
  What can be seen of a run: a call of the single-page fetch with its request and result,
  an item received from the item channel, an error received from the error channel, the
  closing of the item channel, and the cancellation of the context.
\<close>

datatype ('r, 'a) event =
  Fetched 'r "error + 'a Page" | Emitted 'a | ErrDelivered error | Closed | Cancelled

text \<open>
  Both channels are unbuffered (\<open>make(chan Album)\<close>, \<open>make(chan error)\<close>), so a send
  completes only together with a receive of the consumer. The environment of the goroutine
  is a schedule of actions: \<open>Cancel\<close> cancels the context, \<open>Recv\<close> is a receive of the
  consumer on the item channel, \<open>RecvErr\<close> a receive on the error channel, and \<open>Go\<close> lets
  the goroutine take the next step it can take on its own.
\<close>

datatype action = Cancel | Go | Recv | RecvErr

record ('r, 'a) config =
  pc :: "'a pc"
  req :: 'r
  calls :: nat
  ctx_done :: bool
  item_closed :: bool
  err_closed :: bool
  trace :: "('r, 'a) event list"

text \<open>
  The goroutine receives a copy of the caller's request; both channels are open and no
  fetch has been made.
\<close>

definition init :: "'r \<Rightarrow> ('r, 'a) config" where
  "init r = \<lparr>pc = LoopHead, req = r, calls = 0, ctx_done = False,
             item_closed = False, err_closed = False, trace = []\<rparr>"

text \<open>
  One action of the schedule. \<open>fetch k r\<close> is the result of the single-page fetch for request
  \<open>r\<close> when \<open>k\<close> fetches went before it (the transport may answer the same request
  differently each time). An action that is not possible where the goroutine stands leaves
  the configuration as it is: a \<open>Go\<close> while the goroutine is blocked in a send, a receive
  while it is not sending.

  At the \<open>select\<close> of the inner loop both cases can be ready, the context cancelled and the
  consumer receiving; Go then picks one of them at random. So \<open>Recv\<close> completes the
  send whether or not the context is cancelled, and \<open>Go\<close> takes the \<open>ctx.Done()\<close> case when
  the context is cancelled.
\<close>

definition step ::
  "(nat \<Rightarrow> 'r \<Rightarrow> error + 'a Page) \<Rightarrow> (string \<Rightarrow> 'r \<Rightarrow> 'r) \<Rightarrow> action \<Rightarrow>
   ('r, 'a) config \<Rightarrow> ('r, 'a) config" where
  "step fetch set_token a c =
    (case a of
      Cancel \<Rightarrow>
        if ctx_done c then c else c\<lparr>ctx_done := True, trace := trace c @ [Cancelled]\<rparr>
    | Go \<Rightarrow>
        (case pc c of
          LoopHead \<Rightarrow>
            if ctx_done c then c\<lparr>pc := Ret\<rparr>
            else
              (let r = fetch (calls c) (req c) in
               c\<lparr>pc := (case r of Inl e \<Rightarrow> SendErr e
                               | Inr p \<Rightarrow> Emit (Items p) (NextPageToken p)),
                 calls := Suc (calls c),
                 trace := trace c @ [Fetched (req c) r]\<rparr>)
        | SendErr e \<Rightarrow> c
        | Emit xs tok \<Rightarrow>
            (case xs of
              [] \<Rightarrow> if tok = [] then c\<lparr>pc := Ret\<rparr>
                    else c\<lparr>pc := LoopHead, req := set_token tok (req c)\<rparr>
            | x # xs' \<Rightarrow> if ctx_done c then c\<lparr>pc := Ret\<rparr> else c)
        | Ret \<Rightarrow> c\<lparr>pc := Halted, item_closed := True, trace := trace c @ [Closed]\<rparr>
        | Halted \<Rightarrow> c)
    | Recv \<Rightarrow>
        (case pc c of
          Emit xs tok \<Rightarrow>
            (case xs of
              [] \<Rightarrow> c
            | x # xs' \<Rightarrow> c\<lparr>pc := Emit xs' tok, trace := trace c @ [Emitted x]\<rparr>)
        | _ \<Rightarrow> c)
    | RecvErr \<Rightarrow>
        (case pc c of
          SendErr e \<Rightarrow> c\<lparr>pc := Ret, trace := trace c @ [ErrDelivered e]\<rparr>
        | _ \<Rightarrow> c))"

fun exec ::
  "(nat \<Rightarrow> 'r \<Rightarrow> error + 'a Page) \<Rightarrow> (string \<Rightarrow> 'r \<Rightarrow> 'r) \<Rightarrow> action list \<Rightarrow>
   ('r, 'a) config \<Rightarrow> ('r, 'a) config" where
  "exec fetch set_token [] c = c"
| "exec fetch set_token (a # as) c = exec fetch set_token as (step fetch set_token a c)"

text \<open>The items, the errors and the fetches of a trace.\<close>

fun emitted :: "('r, 'a) event list \<Rightarrow> 'a list" where
  "emitted [] = []"
| "emitted (Emitted x # tr) = x # emitted tr"
| "emitted (_ # tr) = emitted tr"

fun errors :: "('r, 'a) event list \<Rightarrow> error list" where
  "errors [] = []"
| "errors (ErrDelivered e # tr) = e # errors tr"
| "errors (_ # tr) = errors tr"

fun fetches :: "('r, 'a) event list \<Rightarrow> 'r list" where
  "fetches [] = []"
| "fetches (Fetched r res # tr) = r # fetches tr"
| "fetches (_ # tr) = fetches tr"

text \<open>
  Scripts of fetch results, used to state what the transport returns in a run.
  \<open>answers fetch set_token k r rs\<close>: the fetches number \<open>k\<close>, \<open>k + 1\<close>, ... return the results
  \<open>rs\<close> in this order, when each is called with the request that carries the
  \<open>NextPageToken\<close> of the page before it (the first one with \<open>r\<close>).
\<close>

fun answers ::
  "(nat \<Rightarrow> 'r \<Rightarrow> error + 'a Page) \<Rightarrow> (string \<Rightarrow> 'r \<Rightarrow> 'r) \<Rightarrow> nat \<Rightarrow> 'r \<Rightarrow>
   (error + 'a Page) list \<Rightarrow> bool" where
  "answers fetch set_token k r [] = True"
| "answers fetch set_token k r (res # rs) =
    (fetch k r = res \<and>
     (case res of
        Inl e \<Rightarrow> True
      | Inr p \<Rightarrow> answers fetch set_token (Suc k) (set_token (NextPageToken p) r) rs))"

text \<open>A script is complete when it ends the pagination: with an error or an empty token,
  and with neither before its last result.\<close>

fun complete :: "(error + 'a Page) list \<Rightarrow> bool" where
  "complete [] = False"
| "complete (Inl e # rs) = (rs = [])"
| "complete (Inr p # rs) = (if NextPageToken p = [] then rs = [] else complete rs)"

text \<open>The trace of a run to the end over a script, when the context is never cancelled.\<close>

fun expected ::
  "(string \<Rightarrow> 'r \<Rightarrow> 'r) \<Rightarrow> 'r \<Rightarrow> (error + 'a Page) list \<Rightarrow> ('r, 'a) event list" where
  "expected set_token r [] = []"
| "expected set_token r (Inl e # rs) = [Fetched r (Inl e), ErrDelivered e, Closed]"
| "expected set_token r (Inr p # rs) =
     Fetched r (Inr p) # map Emitted (Items p) @
     (if NextPageToken p = [] then [Closed]
      else expected set_token (set_token (NextPageToken p) r) rs)"

text \<open>The part of it that is still to come from a configuration.\<close>

definition rest ::
  "(string \<Rightarrow> 'r \<Rightarrow> 'r) \<Rightarrow> ('r, 'a) config \<Rightarrow> (error + 'a Page) list \<Rightarrow>
   ('r, 'a) event list" where
  "rest set_token c rs =
    (case pc c of
       LoopHead \<Rightarrow> expected set_token (req c) rs
     | SendErr e \<Rightarrow> [ErrDelivered e, Closed]
     | Emit xs tok \<Rightarrow> map Emitted xs @
         (if tok = [] then [Closed] else expected set_token (set_token tok (req c)) rs)
     | Ret \<Rightarrow> [Closed]
     | Halted \<Rightarrow> [])"

definition on_script ::
  "(nat \<Rightarrow> 'r \<Rightarrow> error + 'a Page) \<Rightarrow> (string \<Rightarrow> 'r \<Rightarrow> 'r) \<Rightarrow> ('r, 'a) config \<Rightarrow>
   (error + 'a Page) list \<Rightarrow> bool" where
  "on_script fetch set_token c rs =
    (\<not> ctx_done c \<and>
     (case pc c of
       LoopHead \<Rightarrow> answers fetch set_token (calls c) (req c) rs \<and> complete rs
     | Emit xs tok \<Rightarrow> tok \<noteq> [] \<longrightarrow>
         answers fetch set_token (calls c) (set_token tok (req c)) rs \<and> complete rs
     | _ \<Rightarrow> True))"

text \<open>
  The schedule of a consumer that receives every item and the error as soon as they are
  sent, and never cancels.
\<close>

fun eager :: "(error + 'a Page) list \<Rightarrow> action list" where
  "eager [] = []"
| "eager (Inl e # rs) = [Go, RecvErr, Go]"
| "eager (Inr p # rs) =
     Go # replicate (length (Items p)) Recv @
     Go # (if NextPageToken p = [] then [Go] else eager rs)"

text \<open>Fetch after fetch, each followed by the items of its page, for a list of pages; and
  the request the goroutine holds after them.\<close>

fun page_trace :: "(string \<Rightarrow> 'r \<Rightarrow> 'r) \<Rightarrow> 'r \<Rightarrow> 'a Page list \<Rightarrow> ('r, 'a) event list" where
  "page_trace set_token r [] = []"
| "page_trace set_token r (p # ps) =
     Fetched r (Inr p) # map Emitted (Items p) @
     page_trace set_token (set_token (NextPageToken p) r) ps"

fun req_after :: "(string \<Rightarrow> 'r \<Rightarrow> 'r) \<Rightarrow> 'r \<Rightarrow> 'a Page list \<Rightarrow> 'r" where
  "req_after set_token r [] = r"
| "req_after set_token r (p # ps) = req_after set_token (set_token (NextPageToken p) r) ps"

section \<open>Requests\<close>

text \<open>
  \<open>ListAlbumsRequest\<close> and \<open>ListMediaItemsRequest\<close> declare the same three fields.
  \<open>PageSize\<close> is a Go \<open>int\<close>; the code only compares it with zero and prints it, so it is an
  integer here.
\<close>

record ListRequest =
  PageSize :: int
  PageToken :: string
  ExcludeNonAppCreatedData :: bool

type_synonym ListAlbumsRequest = ListRequest
type_synonym ListMediaItemsRequest = ListRequest

text \<open>
  \<open>SearchMediaItemRequest\<close>; its \<open>PageSize\<close> is an \<open>int64\<close>. The fields \<open>PageSize\<close> and
  \<open>PageToken\<close> carry the prefix \<open>Search\<close> here, their names being taken by \<open>ListRequest\<close>.
  \<open>Filters\<close> is a struct without fields.
\<close>

record SearchMediaItemRequest =
  AlbumID :: string
  SearchPageSize :: "64 word"
  SearchPageToken :: string
  Filters :: unit
  OrderBy :: string

section \<open>The request builder of \<open>list\<close>\<close>

subsection \<open>Library functions the builder calls\<close>

text \<open>
  \<open>strconv.Itoa\<close> and \<open>strconv.FormatBool\<close>: the decimal digits, most significant first,
  with a minus sign for a negative number; \<open>true\<close> or \<open>false\<close>.
\<close>

definition digit_char :: "nat \<Rightarrow> char" where
  "digit_char d = ''0123456789'' ! d"

function digits :: "nat \<Rightarrow> string" where
  "digits n = (if n < 10 then [digit_char n] else digits (n div 10) @ [digit_char (n mod 10)])"
  by pat_completeness auto
termination
  by (relation "measure id") auto

definition Itoa :: "int \<Rightarrow> string" where
  "Itoa i = (if i < 0 then CHR ''-'' # digits (nat (- i)) else digits (nat i))"

definition FormatBool :: "bool \<Rightarrow> string" where
  "FormatBool b = (if b then ''true'' else ''false'')"

text \<open>
  \<open>url.Values\<close> is a \<open>map[string][]string\<close>; its keys are kept here in the order of their
  first \<open>Add\<close>, which \<open>Encode\<close> does not depend on, since it sorts the keys.
  \<open>Add\<close> appends the value to the values of the key, \<open>Get\<close> returns the first value of the
  key or the empty string.
\<close>

type_synonym Values = "(string \<times> string list) list"

definition Values_Add :: "string \<Rightarrow> string \<Rightarrow> Values \<Rightarrow> Values" where
  "Values_Add key v vs =
    (case map_of vs key of
       None \<Rightarrow> vs @ [(key, [v])]
     | Some old \<Rightarrow> map (\<lambda>(k, ws). if k = key then (k, ws @ [v]) else (k, ws)) vs)"

definition Values_Get :: "Values \<Rightarrow> string \<Rightarrow> string" where
  "Values_Get vs key = (case map_of vs key of Some (v # _) \<Rightarrow> v | _ \<Rightarrow> [])"

text \<open>
  \<open>url.QueryEscape\<close>: letters, digits and \<open>- _ . ~\<close> stay, a space becomes \<open>+\<close>, every other
  byte becomes \<open>%XX\<close> with upper-case hexadecimal digits.
\<close>

definition unreserved :: "char \<Rightarrow> bool" where
  "unreserved c =
    (let n = (of_char c :: nat) in
     (97 \<le> n \<and> n \<le> 122) \<or> (65 \<le> n \<and> n \<le> 90) \<or> (48 \<le> n \<and> n \<le> 57) \<or>
     c = CHR ''-'' \<or> c = CHR ''_'' \<or> c = CHR ''.'' \<or> c = CHR ''~'')"

definition upperhex :: "nat \<Rightarrow> char" where
  "upperhex d = ''0123456789ABCDEF'' ! d"

definition escape_byte :: "char \<Rightarrow> string" where
  "escape_byte c =
    (if unreserved c then [c]
     else if c = CHR '' '' then ''+''
     else [CHR ''%'', upperhex (of_char c div 16), upperhex (of_char c mod 16)])"

definition QueryEscape :: "string \<Rightarrow> string" where
  "QueryEscape s = concat (map escape_byte s)"

text \<open>
  \<open>Values.Encode\<close>: the keys sorted (\<open>slices.Sort\<close>, bytewise), each value of a key as
  \<open>key=value\<close>, both escaped, the pairs joined by \<open>&\<close>.
\<close>

fun join_amp :: "string list \<Rightarrow> string" where
  "join_amp [] = []"
| "join_amp [x] = x"
| "join_amp (x # y # zs) = x @ CHR ''&'' # join_amp (y # zs)"

definition Values_Encode :: "Values \<Rightarrow> string" where
  "Values_Encode vs =
    join_amp (concat (map (\<lambda>k. map (\<lambda>v. QueryEscape k @ CHR ''='' # QueryEscape v)
                                     (case map_of vs k of None \<Rightarrow> [] | Some ws \<Rightarrow> ws))
                          (sort (remdups (map fst vs)))))"

subsection \<open>The constants of package \<open>api\<close> and the paths\<close>

definition PhotosLibraryScheme :: string where "PhotosLibraryScheme = ''https''"
definition PhotosLibraryHost :: string where "PhotosLibraryHost = ''photoslibrary.googleapis.com''"
definition PhotosLibraryVersion :: string where "PhotosLibraryVersion = ''v1''"
definition PageSizeQueryKey :: string where "PageSizeQueryKey = ''pageSize''"
definition PageTokenQueryKey :: string where "PageTokenQueryKey = ''pageToken''"
definition ExcludeNonAppCreatedDataQueryKey :: string where
  "ExcludeNonAppCreatedDataQueryKey = ''excludeNonAppCreatedData''"
definition ListAlbumsPath :: string where "ListAlbumsPath = ''albums''"
definition ListMediaItemsPath :: string where "ListMediaItemsPath = ''mediaItems''"
definition SearchMediaItemsPath :: string where "SearchMediaItemsPath = ''mediaItems:search''"

subsection \<open>The query of \<open>list\<close>\<close>

text \<open>
  Both \<open>list\<close> functions (albums, mediaitems) fill \<open>urlValues\<close> with the same statements:

  \<^verbatim>\<open>
  urlValues := make(url.Values)
  if listAlbumsRequest.PageSize > 0 {
      urlValues.Add(api.PageSizeQueryKey, strconv.Itoa(listAlbumsRequest.PageSize))
  }
  if listAlbumsRequest.PageToken != "" {
      urlValues.Add(api.PageTokenQueryKey, listAlbumsRequest.PageToken)
  }
  urlValues.Add(api.ExcludeNonAppCreatedDataQueryKey,
      strconv.FormatBool(listAlbumsRequest.ExcludeNonAppCreatedData))
  \<close>
\<close>

definition urlValues :: "ListRequest \<Rightarrow> Values" where
  "urlValues r =
    (let v0 = [];
         v1 = (if PageSize r > 0 then Values_Add PageSizeQueryKey (Itoa (PageSize r)) v0
               else v0);
         v2 = (if PageToken r \<noteq> [] then Values_Add PageTokenQueryKey (PageToken r) v1
               else v1)
     in Values_Add ExcludeNonAppCreatedDataQueryKey
          (FormatBool (ExcludeNonAppCreatedData r)) v2)"

definition RawQuery :: "ListRequest \<Rightarrow> string" where
  "RawQuery r = Values_Encode (urlValues r)"

section \<open>The single-page fetch\<close>

text \<open>
  The JSON values that a request body is made of. \<open>json.Encoder\<close> and \<open>json.Decoder\<close> are
  taken at this level: which members an object has, not the bytes that spell them. A
  number is an integer here, the only numbers the request types hold.
\<close>

datatype json =
  JNull | JBool bool | JNumber int | JString string | JArray "json list" |
  JObject "(string \<times> json) list"

record http_request =
  Method :: string
  URL :: string
  Body :: "json option"

text \<open>
  Of a response the fetch uses the body and the result of closing it. The type of the
  body is left open; \<open>json.NewDecoder(resp.Body).Decode\<close> into the response struct is a
  parameter \<open>Decode\<close> of the fetch, \<open>client.Do\<close> a parameter \<open>Do\<close>.
\<close>

record 'b http_response =
  RespBody :: 'b
  CloseResult :: "error option"

text \<open>Beside its result, the model of the fetch returns what became of the response body.\<close>

datatype body_state = NoResponse | BodyOpen | BodyClosed

text \<open>
  \<open>url.JoinPath\<close> on the two constant path elements, which it only joins with a slash,
  and \<open>URL.String\<close> for a URL with scheme, host, a relative path and a query: the query
  follows a question mark if it is not empty.
\<close>

definition JoinPath :: "string \<Rightarrow> string \<Rightarrow> string" where
  "JoinPath base elem = base @ ''/'' @ elem"

definition URL_String :: "string \<Rightarrow> string \<Rightarrow> string \<Rightarrow> string \<Rightarrow> string" where
  "URL_String scheme host path query =
     scheme @ ''://'' @ host @ ''/'' @ path @ (if query = [] then [] else ''?'' @ query)"

text \<open>
  \<open>list\<close> of package \<open>albums\<close>:

  \<^verbatim>\<open>
  resp, err := client.Do(req)
  if err != nil {
      return listAlbumsResponse, err
  }
  if err := json.NewDecoder(resp.Body).Decode(&listAlbumsResponse); err != nil {
      return listAlbumsResponse, err
  }
  if err := resp.Body.Close(); err != nil {
      return listAlbumsResponse, err
  }
  return listAlbumsResponse, nil
  \<close>

  \<open>url.JoinPath\<close> and \<open>http.NewRequestWithContext\<close> do not fail on the constant path, the
  method \<open>GET\<close> and the URL built here, so their error branches are not in the model.
  The statements of each fetch up to \<open>http.NewRequestWithContext\<close> build the request; they
  are the function with the suffix \<open>_request\<close>, and the fetch goes on from \<open>client.Do\<close>.
\<close>

definition albums_list_request :: "ListAlbumsRequest \<Rightarrow> http_request" where
  "albums_list_request listAlbumsRequest =
    (let urlPath = JoinPath PhotosLibraryVersion ListAlbumsPath;
         rawURL = URL_String PhotosLibraryScheme PhotosLibraryHost urlPath
                    (Values_Encode (urlValues listAlbumsRequest))
     in \<lparr>Method = ''GET'', URL = rawURL, Body = None\<rparr>)"

definition albums_list ::
  "(http_request \<Rightarrow> error + 'b http_response) \<Rightarrow> ('b \<Rightarrow> error + 'a Page) \<Rightarrow>
   ListAlbumsRequest \<Rightarrow> (error + 'a Page) \<times> body_state" where
  "albums_list Do Decode listAlbumsRequest =
    (case Do (albums_list_request listAlbumsRequest) of
       Inl err \<Rightarrow> (Inl err, NoResponse)
     | Inr resp \<Rightarrow>
         (case Decode (RespBody resp) of
            Inl err \<Rightarrow> (Inl err, BodyOpen)
          | Inr listAlbumsResponse \<Rightarrow>
              (case CloseResult resp of
                 Some err \<Rightarrow> (Inl err, BodyClosed)
               | None \<Rightarrow> (Inr listAlbumsResponse, BodyClosed))))"

text \<open>\<open>list\<close> of package \<open>mediaitems\<close>: the same statements on \<open>ListMediaItemsPath\<close>.\<close>

definition mediaitems_list_request :: "ListMediaItemsRequest \<Rightarrow> http_request" where
  "mediaitems_list_request listRequest =
    (let urlPath = JoinPath PhotosLibraryVersion ListMediaItemsPath;
         rawURL = URL_String PhotosLibraryScheme PhotosLibraryHost urlPath
                    (Values_Encode (urlValues listRequest))
     in \<lparr>Method = ''GET'', URL = rawURL, Body = None\<rparr>)"

definition mediaitems_list ::
  "(http_request \<Rightarrow> error + 'b http_response) \<Rightarrow> ('b \<Rightarrow> error + 'a Page) \<Rightarrow>
   ListMediaItemsRequest \<Rightarrow> (error + 'a Page) \<times> body_state" where
  "mediaitems_list Do Decode listRequest =
    (case Do (mediaitems_list_request listRequest) of
       Inl err \<Rightarrow> (Inl err, NoResponse)
     | Inr resp \<Rightarrow>
         (case Decode (RespBody resp) of
            Inl err \<Rightarrow> (Inl err, BodyOpen)
          | Inr listResponse \<Rightarrow>
              (case CloseResult resp of
                 Some err \<Rightarrow> (Inl err, BodyClosed)
               | None \<Rightarrow> (Inr listResponse, BodyClosed))))"

text \<open>
  \<open>encoding/json\<close> writes a Go string rune by rune (\<open>utf8.DecodeRuneInString\<close>): a byte
  at which no valid UTF-8 encoding starts is written as the escape of \<open>U+FFFD\<close>, the replacement
  character, and the scan goes on at the next byte. A valid encoding is one byte below
  \<open>0x80\<close>; a byte \<open>C2..DF\<close> and one continuation byte \<open>80..BF\<close>; a byte \<open>E0..EF\<close> and two
  continuation bytes, the first of them in \<open>A0..BF\<close> after \<open>E0\<close> and in \<open>80..9F\<close> after
  \<open>ED\<close>; a byte \<open>F0..F4\<close> and three continuation bytes, the first of them in \<open>90..BF\<close>
  after \<open>F0\<close> and in \<open>80..8F\<close> after \<open>F4\<close>. The decoder does the same to the bytes of a
  string it reads. \<open>ValidString\<close> is \<open>utf8.ValidString\<close>, \<open>json_string\<close> the string that the
  written text denotes, with the bytes \<open>EF BF BD\<close> of the replacement character for each
  refused byte.
\<close>

definition in_range :: "nat \<Rightarrow> nat \<Rightarrow> char \<Rightarrow> bool" where
  "in_range lo hi c = (lo \<le> (of_char c :: nat) \<and> (of_char c :: nat) \<le> hi)"

definition second_of_3 :: "char \<Rightarrow> char \<Rightarrow> bool" where
  "second_of_3 c c2 =
    in_range (if (of_char c :: nat) = 224 then 160 else 128)
             (if (of_char c :: nat) = 237 then 159 else 191) c2"

definition second_of_4 :: "char \<Rightarrow> char \<Rightarrow> bool" where
  "second_of_4 c c2 =
    in_range (if (of_char c :: nat) = 240 then 144 else 128)
             (if (of_char c :: nat) = 244 then 143 else 191) c2"

definition RuneError :: string where
  "RuneError = [CHR 0xEF, CHR 0xBF, CHR 0xBD]"

fun ValidString :: "string \<Rightarrow> bool" where
  "ValidString [] = True"
| "ValidString (c # s) =
    (if in_range 0 127 c then ValidString s
     else if in_range 194 223 c then
       (case s of
          c2 # s2 \<Rightarrow> in_range 128 191 c2 \<and> ValidString s2
        | _ \<Rightarrow> False)
     else if in_range 224 239 c then
       (case s of
          c2 # c3 # s3 \<Rightarrow> second_of_3 c c2 \<and> in_range 128 191 c3 \<and> ValidString s3
        | _ \<Rightarrow> False)
     else if in_range 240 244 c then
       (case s of
          c2 # c3 # c4 # s4 \<Rightarrow>
            second_of_4 c c2 \<and> in_range 128 191 c3 \<and> in_range 128 191 c4 \<and> ValidString s4
        | _ \<Rightarrow> False)
     else False)"

fun json_string :: "string \<Rightarrow> string" where
  "json_string [] = []"
| "json_string (c # s) =
    (if in_range 0 127 c then c # json_string s
     else if in_range 194 223 c then
       (case s of
          c2 # s2 \<Rightarrow>
            if in_range 128 191 c2 then c # c2 # json_string s2
            else RuneError @ json_string s
        | _ \<Rightarrow> RuneError @ json_string s)
     else if in_range 224 239 c then
       (case s of
          c2 # c3 # s3 \<Rightarrow>
            if second_of_3 c c2 \<and> in_range 128 191 c3 then c # c2 # c3 # json_string s3
            else RuneError @ json_string s
        | _ \<Rightarrow> RuneError @ json_string s)
     else if in_range 240 244 c then
       (case s of
          c2 # c3 # c4 # s4 \<Rightarrow>
            if second_of_4 c c2 \<and> in_range 128 191 c3 \<and> in_range 128 191 c4
            then c # c2 # c3 # c4 # json_string s4
            else RuneError @ json_string s
        | _ \<Rightarrow> RuneError @ json_string s)
     else RuneError @ json_string s)"

text \<open>
  The body of \<open>search\<close> is \<open>json.NewEncoder(b).Encode(&searchRequest)\<close>, which goes by the
  struct tags:

  \<^verbatim>\<open>
  type SearchMediaItemRequest struct {
      AlbumID   string  `json:"albumId,omitempty"`
      PageSize  int64   `json:"pageSize,omitempty"`
      PageToken string  `json:"pageToken,omitempty`
      Filters   Filters `json:"filters,omitempty"`
      OrderBy   string  `json:"orderBy,omitempty"`
  }
  \<close>

  The tag of \<open>PageToken\<close> lacks its closing quote, so \<open>reflect.StructTag.Get\<close> finds no
  \<open>json\<close> key in it: the field is encoded under its Go name \<open>PageToken\<close> and without
  \<open>omitempty\<close>. \<open>omitempty\<close> never omits a struct, so \<open>filters\<close> is always written.
  \<open>omitempty\<close> tests the Go string; what is written for it is \<open>json_string\<close> of it.
\<close>

definition Marshal :: "SearchMediaItemRequest \<Rightarrow> json" where
  "Marshal r =
    JObject
      ((if AlbumID r \<noteq> [] then [(''albumId'', JString (json_string (AlbumID r)))] else []) @
       (if SearchPageSize r \<noteq> 0 then [(''pageSize'', JNumber (sint (SearchPageSize r)))] else []) @
       [(''PageToken'', JString (json_string (SearchPageToken r)))] @
       [(''filters'', JObject [])] @
       (if OrderBy r \<noteq> [] then [(''orderBy'', JString (json_string (OrderBy r)))] else []))"

definition search_request :: "SearchMediaItemRequest \<Rightarrow> http_request" where
  "search_request searchRequest =
    (let urlPath = JoinPath PhotosLibraryVersion SearchMediaItemsPath;
         rawURL = URL_String PhotosLibraryScheme PhotosLibraryHost urlPath [];
         b = Marshal searchRequest
     in \<lparr>Method = ''GET'', URL = rawURL, Body = Some b\<rparr>)"

definition search ::
  "(http_request \<Rightarrow> error + 'b http_response) \<Rightarrow> ('b \<Rightarrow> error + 'a Page) \<Rightarrow>
   SearchMediaItemRequest \<Rightarrow> (error + 'a Page) \<times> body_state" where
  "search Do Decode searchRequest =
    (case Do (search_request searchRequest) of
       Inl err \<Rightarrow> (Inl err, NoResponse)
     | Inr resp \<Rightarrow>
         (case Decode (RespBody resp) of
            Inl err \<Rightarrow> (Inl err, BodyOpen)
          | Inr searchResponse \<Rightarrow>
              (case CloseResult resp of
                 Some err \<Rightarrow> (Inl err, BodyClosed)
               | None \<Rightarrow> (Inr searchResponse, BodyClosed))))"

section \<open>The three paginations\<close>

text \<open>
  \<open>List\<close> (albums), \<open>List\<close> (mediaitems) and \<open>Search\<close> run the goroutine with their fetch and
  with \<open>req.PageToken = resp.NextPageToken\<close> on their request type. \<open>client k\<close> is what
  \<open>client.Do\<close> answers on its call number \<open>k\<close>.
\<close>

definition albums_List ::
  "(nat \<Rightarrow> http_request \<Rightarrow> error + 'b http_response) \<Rightarrow> ('b \<Rightarrow> error + 'a Page) \<Rightarrow>
   action list \<Rightarrow> ListAlbumsRequest \<Rightarrow> (ListAlbumsRequest, 'a) config" where
  "albums_List client Decode s listAlbumsRequest =
     exec (\<lambda>k r. fst (albums_list (client k) Decode r)) (\<lambda>tok r. r\<lparr>PageToken := tok\<rparr>)
       s (init listAlbumsRequest)"

definition mediaitems_List ::
  "(nat \<Rightarrow> http_request \<Rightarrow> error + 'b http_response) \<Rightarrow> ('b \<Rightarrow> error + 'a Page) \<Rightarrow>
   action list \<Rightarrow> ListMediaItemsRequest \<Rightarrow> (ListMediaItemsRequest, 'a) config" where
  "mediaitems_List client Decode s listRequest =
     exec (\<lambda>k r. fst (mediaitems_list (client k) Decode r)) (\<lambda>tok r. r\<lparr>PageToken := tok\<rparr>)
       s (init listRequest)"

definition Search ::
  "(nat \<Rightarrow> http_request \<Rightarrow> error + 'b http_response) \<Rightarrow> ('b \<Rightarrow> error + 'a Page) \<Rightarrow>
   action list \<Rightarrow> SearchMediaItemRequest \<Rightarrow> (SearchMediaItemRequest, 'a) config" where
  "Search client Decode s searchRequest =
     exec (\<lambda>k r. fst (search (client k) Decode r)) (\<lambda>tok r. r\<lparr>SearchPageToken := tok\<rparr>)
       s (init searchRequest)"

text \<open>
  What a receive of the consumer finds on a channel of a configuration: a value that the
  goroutine is sending, the zero value of a closed channel, or nothing (the receive
  blocks).
\<close>

datatype 'v received = Value 'v | ZeroOfClosed | Blocks

definition recv_item :: "('r, 'a) config \<Rightarrow> 'a received" where
  "recv_item c =
    (case pc c of
       Emit xs tok \<Rightarrow> (case xs of [] \<Rightarrow> Blocks | x # xs' \<Rightarrow> Value x)
     | _ \<Rightarrow> if item_closed c then ZeroOfClosed else Blocks)"

definition recv_err :: "('r, 'a) config \<Rightarrow> error received" where
  "recv_err c =
    (case pc c of
       SendErr e \<Rightarrow> Value e
     | _ \<Rightarrow> if err_closed c then ZeroOfClosed else Blocks)"

section \<open>The redirect handler of the login flow\<close>

text \<open>
  The handler that \<open>listenAndServerRedirect\<close> installs. The function receives the redirect
  URL and the code channel, and not the state that \<open>NewClient\<close> generated; in the handler
  \<open>state\<close> is the query parameter, and the test compares it with itself:

  \<^verbatim>\<open>
  query := r.URL.Query()
  state := query.Get(stateURLQueryKey)
  if state != string(state) {
      w.WriteHeader(http.StatusUnauthorized)
      w.Write([]byte("invalid state"))
      return
  }
  codeCh <- query.Get("code")

  w.WriteHeader(http.StatusOK)
  w.Write([]byte("Authenticated Successfully"))
  \<close>
\<close>

record handled =
  StatusCode :: nat
  Written :: string
  CodeSent :: "string option"

definition stateURLQueryKey :: string where "stateURLQueryKey = ''state''"

definition handler :: "Values \<Rightarrow> handled" where
  "handler query =
    (let state = Values_Get query stateURLQueryKey in
     if state \<noteq> state
     then \<lparr>StatusCode = 401, Written = ''invalid state'', CodeSent = None\<rparr>
     else \<lparr>StatusCode = 200, Written = ''Authenticated Successfully'',
           CodeSent = Some (Values_Get query ''code'')\<rparr>)"

text \<open>
  \<open>NewClient\<close> after a callback: it blocks in \<open>code := <-codeCh\<close> until a handler sends a
  code, and then calls \<open>config.Exchange\<close> with that code. Its own \<open>state\<close> went into the
  authorization URL only.
\<close>

datatype login = AwaitingCode | ExchangeCalled string

definition NewClient_on_callback :: "string \<Rightarrow> Values \<Rightarrow> login" where
  "NewClient_on_callback state query =
    (case CodeSent (handler query) of None \<Rightarrow> AwaitingCode | Some code \<Rightarrow> ExchangeCalled code)"

text \<open>
  Why a goroutine can have returned: the context was cancelled, a fetch failed, or a page
  came with the empty token.
\<close>

definition halt_cause :: "('r, 'a) event list \<Rightarrow> bool" where
  "halt_cause tr =
    (Cancelled \<in> set tr \<or> (\<exists>r e. Fetched r (Inl e) \<in> set tr) \<or>
     (\<exists>r p. Fetched r (Inr p) \<in> set tr \<and> NextPageToken p = []))"

text \<open>
  What holds of every configuration of a run from \<open>init\<close>: the goroutine stands where the
  events of its trace put it, the item channel is closed exactly when the goroutine has
  finished, the error channel is open, at most one error was delivered, and each fetch
  is in the trace.
\<close>

definition sound :: "('r, 'a) config \<Rightarrow> bool" where
  "sound c =
    ((ctx_done c \<longrightarrow> Cancelled \<in> set (trace c)) \<and>
     (\<forall>e. pc c = SendErr e \<longrightarrow> (\<exists>r. Fetched r (Inl e) \<in> set (trace c))) \<and>
     (\<forall>xs tok. pc c = Emit xs tok \<longrightarrow>
        (\<exists>r p. Fetched r (Inr p) \<in> set (trace c) \<and> NextPageToken p = tok)) \<and>
     (pc c = Ret \<or> pc c = Halted \<longrightarrow> halt_cause (trace c)) \<and>
     (Closed \<in> set (trace c) \<longleftrightarrow> pc c = Halted) \<and>
     (item_closed c \<longleftrightarrow> pc c = Halted) \<and>
     \<not> err_closed c \<and>
     (errors (trace c) \<noteq> [] \<longrightarrow> pc c = Ret \<or> pc c = Halted) \<and>
     length (errors (trace c)) \<le> 1 \<and>
     length (fetches (trace c)) = calls c)"

text \<open>A goroutine that is in the loop, under a context that is not cancelled.\<close>

definition looping :: "string \<Rightarrow> ('r, 'a) config \<Rightarrow> bool" where
  "looping tok c = (\<not> ctx_done c \<and> (pc c = LoopHead \<or> (\<exists>xs. pc c = Emit xs tok)))"

text \<open>No close of the item channel stands before a delivered error in a trace.\<close>

definition error_first :: "('r, 'a) event list \<Rightarrow> bool" where
  "error_first tr = (\<forall>pre e post. tr = pre @ ErrDelivered e # post \<longrightarrow> Closed \<notin> set pre)"

text \<open>
  A failed fetch whose error is in no delivery yet has the goroutine standing in
  \<open>errCh <- err\<close> with that error.
\<close>

definition failure_pending :: "('r, 'a) config \<Rightarrow> bool" where
  "failure_pending c =
    (\<forall>r e. Fetched r (Inl e) \<in> set (trace c) \<longrightarrow>
       pc c = SendErr e \<or> ErrDelivered e \<in> set (trace c))"

section \<open>Reading a built request back\<close>

text \<open>
  The repository decodes no list query: that is the server's part. To state that a built
  query can be read back, the readers below are the library functions of \<open>net/url\<close> and
  \<open>strconv\<close> that invert the ones the builder calls (\<open>url.ParseQuery\<close>,
  \<open>url.QueryUnescape\<close>, \<open>strconv.Atoi\<close>, \<open>strconv.ParseBool\<close>), and a reader of the three
  keys that takes an absent key for the zero value. Errors of the readers are \<open>None\<close>.
\<close>

definition unhex :: "char \<Rightarrow> nat option" where
  "unhex c =
    (let n = (of_char c :: nat) in
     if 48 \<le> n \<and> n \<le> 57 then Some (n - 48)
     else if 97 \<le> n \<and> n \<le> 102 then Some (n - 97 + 10)
     else if 65 \<le> n \<and> n \<le> 70 then Some (n - 65 + 10)
     else None)"

fun QueryUnescape :: "string \<Rightarrow> string option" where
  "QueryUnescape [] = Some []"
| "QueryUnescape (c # s) =
    (if c = CHR ''%'' then
       (case s of
          h1 # h2 # s' \<Rightarrow>
            (case (unhex h1, unhex h2, QueryUnescape s') of
               (Some a, Some b, Some t) \<Rightarrow> Some (char_of (a * 16 + b) # t)
             | _ \<Rightarrow> None)
        | _ \<Rightarrow> None)
     else if c = CHR ''+'' then map_option (Cons (CHR '' '')) (QueryUnescape s)
     else map_option (Cons c) (QueryUnescape s))"

text \<open>\<open>strings.Cut\<close> at the first separator, and the segments between separators.\<close>

fun cut :: "char \<Rightarrow> string \<Rightarrow> string \<times> string" where
  "cut sep [] = ([], [])"
| "cut sep (c # s) =
    (if c = sep then ([], s) else (case cut sep s of (before, after) \<Rightarrow> (c # before, after)))"

fun split_on :: "char \<Rightarrow> string \<Rightarrow> string list" where
  "split_on sep [] = [[]]"
| "split_on sep (c # s) =
    (if c = sep then [] # split_on sep s
     else (case split_on sep s of [] \<Rightarrow> [[c]] | seg # segs \<Rightarrow> (c # seg) # segs))"

text \<open>
  \<open>url.ParseQuery\<close> takes the query apart at each \<open>&\<close>, skips an empty part, refuses a
  part with a semicolon, cuts a part at its first \<open>=\<close>, unescapes key and value and
  appends the value to the values of the key.
\<close>

fun parse_pairs :: "string list \<Rightarrow> Values \<Rightarrow> Values option" where
  "parse_pairs [] m = Some m"
| "parse_pairs (seg # segs) m =
    (if CHR '';'' \<in> set seg then None
     else if seg = [] then parse_pairs segs m
     else
       (case cut (CHR ''='') seg of
          (k, v) \<Rightarrow>
            (case (QueryUnescape k, QueryUnescape v) of
               (Some key, Some val) \<Rightarrow> parse_pairs segs (Values_Add key val m)
             | _ \<Rightarrow> None)))"

definition ParseQuery :: "string \<Rightarrow> Values option" where
  "ParseQuery query = parse_pairs (split_on (CHR ''&'') query) []"

text \<open>\<open>strconv.Atoi\<close> (without its range error) and \<open>strconv.ParseBool\<close>.\<close>

definition digit_val :: "char \<Rightarrow> nat option" where
  "digit_val c =
    (let n = (of_char c :: nat) in if 48 \<le> n \<and> n \<le> 57 then Some (n - 48) else None)"

fun parse_digits :: "nat \<Rightarrow> string \<Rightarrow> nat option" where
  "parse_digits acc [] = Some acc"
| "parse_digits acc (c # s) =
    (case digit_val c of None \<Rightarrow> None | Some d \<Rightarrow> parse_digits (acc * 10 + d) s)"

definition Atoi :: "string \<Rightarrow> int option" where
  "Atoi s =
    (case s of
       [] \<Rightarrow> None
     | c # s' \<Rightarrow>
         if c = CHR ''-'' then
           (if s' = [] then None else map_option (\<lambda>n. - int n) (parse_digits 0 s'))
         else if c = CHR ''+'' then
           (if s' = [] then None else map_option int (parse_digits 0 s'))
         else map_option int (parse_digits 0 s))"

definition ParseBool :: "string \<Rightarrow> bool option" where
  "ParseBool s =
    (if s \<in> set [''1'', ''t'', ''T'', ''TRUE'', ''true'', ''True''] then Some True
     else if s \<in> set [''0'', ''f'', ''F'', ''FALSE'', ''false'', ''False''] then Some False
     else None)"

definition read_ListRequest :: "Values \<Rightarrow> ListRequest option" where
  "read_ListRequest vs =
    (case (if map_of vs PageSizeQueryKey = None then Some 0
           else Atoi (Values_Get vs PageSizeQueryKey),
           if map_of vs ExcludeNonAppCreatedDataQueryKey = None then Some False
           else ParseBool (Values_Get vs ExcludeNonAppCreatedDataQueryKey)) of
       (Some n, Some b) \<Rightarrow>
         Some \<lparr>PageSize = n, PageToken = Values_Get vs PageTokenQueryKey,
               ExcludeNonAppCreatedData = b\<rparr>
     | _ \<Rightarrow> None)"

definition parse_RawQuery :: "string \<Rightarrow> ListRequest option" where
  "parse_RawQuery query =
    (case ParseQuery query of None \<Rightarrow> None | Some vs \<Rightarrow> read_ListRequest vs)"

text \<open>
  The body of \<open>search\<close> is read back as the round tripper of \<open>TestSearch\<close> does, with
  \<open>json.NewDecoder(req.Body).Decode(&rtSearchReq)\<close>: a member sets the field whose JSON
  name (the name of the tag, or the Go name where there is no tag) equals its key when
  letter case is ignored, a member with another key is skipped, \<open>null\<close> leaves the field
  as it is, and a value of the wrong type or a number outside \<open>int64\<close> is an error. The
  folding of case is that of the ASCII letters. A string is stored as \<open>json_string\<close> of
  its bytes, the decoder replacing invalid UTF-8 as the encoder does.
\<close>

definition to_lower :: "char \<Rightarrow> char" where
  "to_lower c =
    (case map_of (zip ''ABCDEFGHIJKLMNOPQRSTUVWXYZ'' ''abcdefghijklmnopqrstuvwxyz'') c of
       None \<Rightarrow> c
     | Some l \<Rightarrow> l)"

definition set_member :: "string \<Rightarrow> json \<Rightarrow> SearchMediaItemRequest \<Rightarrow> SearchMediaItemRequest option" where
  "set_member key v r =
    (let k = map to_lower key in
     if v = JNull then Some r
     else if k = ''albumid'' then
       (case v of JString s \<Rightarrow> Some (r\<lparr>AlbumID := json_string s\<rparr>) | _ \<Rightarrow> None)
     else if k = ''pagesize'' then
       (case v of
          JNumber n \<Rightarrow>
            if - (2 ^ 63) \<le> n \<and> n < 2 ^ 63 then Some (r\<lparr>SearchPageSize := word_of_int n\<rparr>)
            else None
        | _ \<Rightarrow> None)
     else if k = ''pagetoken'' then
       (case v of JString s \<Rightarrow> Some (r\<lparr>SearchPageToken := json_string s\<rparr>) | _ \<Rightarrow> None)
     else if k = ''filters'' then
       (case v of JObject ms \<Rightarrow> Some r | _ \<Rightarrow> None)
     else if k = ''orderby'' then
       (case v of JString s \<Rightarrow> Some (r\<lparr>OrderBy := json_string s\<rparr>) | _ \<Rightarrow> None)
     else Some r)"

fun set_members :: "(string \<times> json) list \<Rightarrow> SearchMediaItemRequest \<Rightarrow> SearchMediaItemRequest option" where
  "set_members [] r = Some r"
| "set_members ((key, v) # ms) r =
    (case set_member key v r of None \<Rightarrow> None | Some r' \<Rightarrow> set_members ms r')"

definition Unmarshal :: "json \<Rightarrow> SearchMediaItemRequest option" where
  "Unmarshal j =
    (case j of
       JObject ms \<Rightarrow>
         set_members ms
           \<lparr>AlbumID = [], SearchPageSize = 0, SearchPageToken = [], Filters = (), OrderBy = []\<rparr>
     | JNull \<Rightarrow>
         Some \<lparr>AlbumID = [], SearchPageSize = 0, SearchPageToken = [], Filters = (), OrderBy = []\<rparr>
     | _ \<Rightarrow> None)"

text \<open>The query of a URL string is what follows its first question mark.\<close>

definition query_of_URL :: "string \<Rightarrow> string" where
  "query_of_URL u = snd (cut (CHR ''?'') u)"

text \<open>One \<open>key=value\<close> part of an encoded query.\<close>

definition query_pair :: "string \<times> string \<Rightarrow> string" where
  "query_pair kv = QueryEscape (fst kv) @ CHR ''='' # QueryEscape (snd kv)"

section \<open>Properties of the pagination goroutine\<close>

subsection \<open>Runs over a script of fetch results, without cancellation\<close>

text \<open>
  An action other than \<open>Cancel\<close> keeps a configuration on its script, and the events it
  adds are the next events of the expected trace.
\<close>

lemma step_on_script:
  assumes "on_script fetch st c rs" "a \<noteq> Cancel"
  shows "\<exists>rs'. on_script fetch st (step fetch st a c) rs' \<and>
          trace (step fetch st a c) @ rest st (step fetch st a c) rs' = trace c @ rest st c rs"
proof (cases a)
  case Cancel with assms show ?thesis by simp
next
  case Go
  show ?thesis
  proof (cases "pc c")
    case LoopHead
    with assms obtain res rs' where rs: "rs = res # rs'"
      by (cases rs) (auto simp: on_script_def)
    show ?thesis
    proof (cases res)
      case (Inl e)
      with assms LoopHead rs Go have "rs' = []" "fetch (calls c) (req c) = Inl e" "\<not> ctx_done c"
        by (auto simp: on_script_def)
      with LoopHead Go rs Inl show ?thesis
        by (intro exI[of _ "[]"]) (simp add: step_def on_script_def rest_def)
    next
      case (Inr p)
      with assms LoopHead rs Go show ?thesis
        by (intro exI[of _ rs']) (auto simp: step_def on_script_def rest_def)
    qed
  next
    case (SendErr e)
    with assms Go show ?thesis by (intro exI[of _ rs]) (simp add: step_def on_script_def rest_def)
  next
    case (Emit xs tok)
    with assms Go show ?thesis
      by (intro exI[of _ rs]) (auto simp: step_def on_script_def rest_def split: list.splits)
  next
    case Ret
    with assms Go show ?thesis by (intro exI[of _ rs]) (simp add: step_def on_script_def rest_def)
  next
    case Halted
    with assms Go show ?thesis by (intro exI[of _ rs]) (simp add: step_def on_script_def rest_def)
  qed
next
  case Recv
  with assms show ?thesis
    by (intro exI[of _ rs]) (auto simp: step_def on_script_def rest_def split: pc.splits list.splits)
next
  case RecvErr
  with assms show ?thesis
    by (intro exI[of _ rs]) (auto simp: step_def on_script_def rest_def split: pc.splits list.splits)
qed

lemma exec_on_script:
  assumes "on_script fetch st c rs" "Cancel \<notin> set s"
  shows "\<exists>rs'. on_script fetch st (exec fetch st s c) rs' \<and>
          trace (exec fetch st s c) @ rest st (exec fetch st s c) rs' = trace c @ rest st c rs"
  using assms
proof (induction s arbitrary: c rs)
  case Nil
  then show ?case by auto
next
  case (Cons a s)
  from Cons.prems have "a \<noteq> Cancel" "Cancel \<notin> set s" by auto
  from step_on_script[OF Cons.prems(1) \<open>a \<noteq> Cancel\<close>]
  obtain rs1 where 1: "on_script fetch st (step fetch st a c) rs1"
    and 2: "trace (step fetch st a c) @ rest st (step fetch st a c) rs1 = trace c @ rest st c rs"
    by blast
  from Cons.IH[OF 1 \<open>Cancel \<notin> set s\<close>] 2 show ?case by simp
qed

lemma exec_append: "exec f st (s1 @ s2) c = exec f st s2 (exec f st s1 c)"
  by (induction s1 arbitrary: c) auto

lemma emitted_append: "emitted (tr1 @ tr2) = emitted tr1 @ emitted tr2"
  by (induction tr1 rule: emitted.induct) auto

lemma errors_append: "errors (tr1 @ tr2) = errors tr1 @ errors tr2"
  by (induction tr1 rule: errors.induct) auto

lemma fetches_append: "fetches (tr1 @ tr2) = fetches tr1 @ fetches tr2"
  by (induction tr1 rule: fetches.induct) auto

lemma emitted_map_Emitted: "emitted (map Emitted xs) = xs"
  by (induction xs) auto

lemma errors_map_Emitted: "errors (map Emitted xs) = []"
  by (induction xs) auto

lemma fetches_map_Emitted: "fetches (map Emitted xs) = []"
  by (induction xs) auto

lemma emitted_page_trace: "emitted (page_trace st r ps) = concat (map Items ps)"
  by (induction ps arbitrary: r) (auto simp: emitted_append emitted_map_Emitted)

lemma errors_page_trace: "errors (page_trace st r ps) = []"
  by (induction ps arbitrary: r) (auto simp: errors_append errors_map_Emitted)

lemma length_fetches_page_trace: "length (fetches (page_trace st r ps)) = length ps"
  by (induction ps arbitrary: r) (auto simp: fetches_append fetches_map_Emitted)

lemma complete_pages:
  "ps \<noteq> [] \<Longrightarrow> \<forall>p\<in>set (butlast ps). NextPageToken p \<noteq> [] \<Longrightarrow> NextPageToken (last ps) = []
   \<Longrightarrow> complete (map Inr ps)"
  by (induction ps) (auto split: if_splits)

lemma expected_pages:
  "ps \<noteq> [] \<Longrightarrow> \<forall>p\<in>set (butlast ps). NextPageToken p \<noteq> [] \<Longrightarrow> NextPageToken (last ps) = []
   \<Longrightarrow> expected st r (map Inr ps) = page_trace st r ps @ [Closed]"
  by (induction ps arbitrary: r) (auto split: if_splits)

lemma complete_failing:
  "\<forall>p\<in>set ps. NextPageToken p \<noteq> [] \<Longrightarrow> complete (map Inr ps @ [Inl e])"
  by (induction ps) auto

lemma expected_failing:
  "\<forall>p\<in>set ps. NextPageToken p \<noteq> [] \<Longrightarrow>
   expected st r (map Inr ps @ [Inl e]) =
   page_trace st r ps @ [Fetched (req_after st r ps) (Inl e), ErrDelivered e, Closed]"
  by (induction ps arbitrary: r) auto

lemma exec_Recv_all:
  "pc c = Emit xs tok \<Longrightarrow>
   exec f st (replicate (length xs) Recv) c = c\<lparr>pc := Emit [] tok, trace := trace c @ map Emitted xs\<rparr>"
proof (induction xs arbitrary: c)
  case Nil
  then show ?case by simp
next
  case (Cons x xs)
  have "pc (step f st Recv c) = Emit xs tok" using Cons.prems by (simp add: step_def)
  from Cons.IH[OF this] Cons.prems show ?case by (simp add: step_def)
qed

lemma Cancel_notin_eager: "Cancel \<notin> set (eager rs)"
  by (induction rs rule: eager.induct) auto

lemma eager_halts:
  "on_script f st c rs \<Longrightarrow> pc c = LoopHead \<Longrightarrow> pc (exec f st (eager rs) c) = Halted"
proof (induction rs arbitrary: c rule: eager.induct)
  case 1
  then show ?case by (simp add: on_script_def)
next
  case (2 e rs)
  then show ?case by (simp add: on_script_def step_def)
next
  case (3 p rs)
  let ?c1 = "step f st Go c"
  from "3.prems" have f: "f (calls c) (req c) = Inr p" and nd: "\<not> ctx_done c"
    by (auto simp: on_script_def)
  with "3.prems" have pc1: "pc ?c1 = Emit (Items p) (NextPageToken p)"
    by (simp add: step_def)
  let ?c2 = "exec f st (replicate (length (Items p)) Recv) ?c1"
  have c2: "?c2 = ?c1\<lparr>pc := Emit [] (NextPageToken p), trace := trace ?c1 @ map Emitted (Items p)\<rparr>"
    by (rule exec_Recv_all[OF pc1])
  show ?case
  proof (cases "NextPageToken p = []")
    case True
    then show ?thesis
      by (simp add: exec_append c2) (simp add: step_def)
  next
    case False
    let ?c3 = "step f st Go ?c2"
    have pc3: "pc ?c3 = LoopHead" using False by (simp add: c2) (simp add: step_def)
    have "on_script f st ?c3 rs"
      using "3.prems" False f nd by (simp add: c2) (simp add: step_def on_script_def)
    from "3.IH"[OF False this pc3] False show ?thesis
      by (simp add: exec_append)
  qed
qed

lemma on_script_init:
  "answers f st 0 r0 rs \<Longrightarrow> complete rs \<Longrightarrow> on_script f st (init r0) rs"
  by (simp add: on_script_def init_def)

lemma rest_init: "rest st (init r0) rs = expected st r0 rs"
  by (simp add: rest_def init_def)

lemma trace_init: "trace (init r0) = []"
  by (simp add: init_def)

lemma rest_Halted: "pc c = Halted \<Longrightarrow> rest st c rs = []"
  by (simp add: rest_def)

lemma prefix_fetches: "prefix tr tr' \<Longrightarrow> length (fetches tr) \<le> length (fetches tr')"
  by (auto simp: prefix_def fetches_append)

lemma prefix_emitted: "prefix tr tr' \<Longrightarrow> prefix (emitted tr) (emitted tr')"
  by (auto simp: prefix_def emitted_append)

text \<open>
  C1. Let the transport return the pages \<open>ps\<close>, one per fetch, the last one with the empty
  token and the others with a non-empty token, and let the context never be cancelled.
  Then the trace of every run is a prefix of: fetch of page 1, its items in server order,
  fetch of page 2 (with the token of page 1), its items, ..., close of the item channel;
  so a page is fetched only after every item of the page before it was emitted. The
  items emitted are a prefix of the concatenation of the pages' items, and when the
  goroutine has finished they are exactly that concatenation, with no error delivered.
  The goroutine does finish when the consumer receives every item (schedule \<open>eager\<close>).
  The statement is about \<open>exec\<close> with any fetch, so it holds for \<open>albums_List\<close>,
  \<open>mediaitems_List\<close> and \<open>Search\<close>.
\<close>

theorem C1_pagination_emits_concatenation:
  assumes "ps \<noteq> []"
    and "\<forall>p\<in>set (butlast ps). NextPageToken p \<noteq> []"
    and "NextPageToken (last ps) = []"
    and "answers fetch set_token 0 r0 (map Inr ps)"
    and "Cancel \<notin> set s"
  shows "prefix (trace (exec fetch set_token s (init r0))) (page_trace set_token r0 ps @ [Closed])
       \<and> prefix (emitted (trace (exec fetch set_token s (init r0)))) (concat (map Items ps))
       \<and> (pc (exec fetch set_token s (init r0)) = Halted \<longrightarrow>
            trace (exec fetch set_token s (init r0)) = page_trace set_token r0 ps @ [Closed]
          \<and> emitted (trace (exec fetch set_token s (init r0))) = concat (map Items ps)
          \<and> errors (trace (exec fetch set_token s (init r0))) = [])
       \<and> Cancel \<notin> set (eager (map Inr ps :: (error + 'a Page) list))
       \<and> pc (exec fetch set_token (eager (map Inr ps)) (init r0)) = Halted"
proof -
  let ?c = "exec fetch set_token s (init r0)"
  let ?full = "page_trace set_token r0 ps @ [Closed]"
  have comp: "complete (map Inr ps :: (error + 'a Page) list)"
    using assms(1-3) by (rule complete_pages)
  have os: "on_script fetch set_token (init r0) (map Inr ps)"
    using assms(4) comp by (rule on_script_init)
  have ex: "expected set_token r0 (map Inr ps) = ?full"
    using assms(1-3) by (rule expected_pages)
  from exec_on_script[OF os assms(5)] obtain rs' where
    inv: "trace ?c @ rest set_token ?c rs' = ?full"
    by (auto simp: rest_init ex trace_init)
  have p: "prefix (trace ?c) ?full"
    using inv by (metis prefixI)
  have pe: "prefix (emitted (trace ?c)) (concat (map Items ps))"
    using prefix_emitted[OF p] by (simp add: emitted_append emitted_page_trace)
  have h: "pc ?c = Halted \<longrightarrow> trace ?c = ?full
          \<and> emitted (trace ?c) = concat (map Items ps) \<and> errors (trace ?c) = []"
  proof
    assume "pc ?c = Halted"
    with inv have "trace ?c = ?full" by (simp add: rest_Halted)
    then show "trace ?c = ?full
          \<and> emitted (trace ?c) = concat (map Items ps) \<and> errors (trace ?c) = []"
      by (simp add: emitted_append emitted_page_trace errors_append errors_page_trace)
  qed
  have l: "pc (exec fetch set_token (eager (map Inr ps)) (init r0)) = Halted"
    using os by (rule eager_halts) (simp add: init_def)
  from p pe h l Cancel_notin_eager show ?thesis by blast
qed

theorem C1_pagination_emits_concatenation_witness:
  "emitted (trace (albums_List
      (\<lambda>k hreq. Inr \<lparr>RespBody = k, CloseResult = None\<rparr>)
      (\<lambda>b. Inr (if b = (0::nat) then \<lparr>Items = [''A'', ''B''], NextPageToken = ''x''\<rparr>
                 else \<lparr>Items = [''C''], NextPageToken = []\<rparr>))
      [Go, Recv, Recv, Go, Go, Recv, Go, Go]
      \<lparr>PageSize = 0, PageToken = [], ExcludeNonAppCreatedData = False\<rparr>))
   = [''A'', ''B'', ''C'']"
proof -
  let ?client = "\<lambda>(k::nat) (hreq::http_request). (Inr \<lparr>RespBody = k, CloseResult = None\<rparr> :: error + nat http_response)"
  let ?dec = "\<lambda>b. (Inr (if b = (0::nat) then \<lparr>Items = [''A'', ''B''], NextPageToken = ''x''\<rparr>
                 else \<lparr>Items = [''C''], NextPageToken = []\<rparr>) :: error + string Page)"
  let ?fetch = "\<lambda>k r. fst (albums_list (?client k) ?dec r)"
  let ?st = "\<lambda>tok (r::ListRequest). r\<lparr>PageToken := tok\<rparr>"
  let ?ps = "[\<lparr>Items = [''A'', ''B''], NextPageToken = ''x''\<rparr>, \<lparr>Items = [''C''], NextPageToken = []\<rparr>]"
  let ?r0 = "\<lparr>PageSize = 0, PageToken = [], ExcludeNonAppCreatedData = False\<rparr>"
  let ?s = "[Go, Recv, Recv, Go, Go, Recv, Go, Go]"
  have 1: "?ps \<noteq> []" by simp
  have 2: "\<forall>p\<in>set (butlast ?ps). NextPageToken p \<noteq> []" by simp
  have 3: "NextPageToken (last ?ps) = []" by simp
  have 4: "answers ?fetch ?st 0 ?r0 (map Inr ?ps)" by (simp add: albums_list_def)
  have 5: "Cancel \<notin> set ?s" by simp
  have 6: "pc (exec ?fetch ?st ?s (init ?r0)) = Halted"
    by (simp add: albums_list_def step_def init_def Let_def)
  from C1_pagination_emits_concatenation[OF 1 2 3 4 5] 6
  have "emitted (trace (exec ?fetch ?st ?s (init ?r0))) = concat (map Items ?ps)"
    by blast
  then show ?thesis by (simp add: albums_List_def)
qed

lemma prefix_errors: "prefix tr tr' \<Longrightarrow> length (errors tr) \<le> length (errors tr')"
  by (auto simp: prefix_def errors_append)

lemma failed_fetch_notin_page_trace: "Fetched r (Inl e) \<notin> set (page_trace st r' ps)"
  by (induction ps arbitrary: r') auto

lemma rest_SendErr: "pc c = SendErr e \<Longrightarrow> rest st c rs = [ErrDelivered e, Closed]"
  by (simp add: rest_def)

text \<open>
  C2. Let the transport return the pages \<open>ps\<close> with non-empty tokens and then fail with
  \<open>e\<close> on the next fetch (page \<open>K = length ps + 1\<close>), and let the context never be
  cancelled. Then no run makes more than \<open>K\<close> fetches (no retry, no fetch after the failed
  one) or delivers more than one error; once the failed fetch has happened the items
  emitted are exactly those of the pages \<open>ps\<close>; and the trace of a finished run is
  the pages, the failed fetch, the delivery of \<open>e\<close> and the close of the item channel.
  The send \<open>errCh <- err\<close> has no second case, so the goroutine finishes only if the
  consumer receives the error: it does under the schedule \<open>eager\<close>.
\<close>

theorem C2_fetch_error_stops_pagination:
  fixes fetch :: "nat \<Rightarrow> 'r \<Rightarrow> error + 'a Page"
  assumes "\<forall>p\<in>set ps. NextPageToken p \<noteq> []"
    and "answers fetch set_token 0 r0 (map Inr ps @ [Inl e])"
    and "Cancel \<notin> set s"
  shows "prefix (trace (exec fetch set_token s (init r0)))
           (page_trace set_token r0 ps @
            [Fetched (req_after set_token r0 ps) (Inl e), ErrDelivered e, Closed])
       \<and> length (fetches (trace (exec fetch set_token s (init r0)))) \<le> Suc (length ps)
       \<and> length (errors (trace (exec fetch set_token s (init r0)))) \<le> 1
       \<and> (Fetched (req_after set_token r0 ps) (Inl e) \<in> set (trace (exec fetch set_token s (init r0)))
            \<longrightarrow> emitted (trace (exec fetch set_token s (init r0))) = concat (map Items ps))
       \<and> (pc (exec fetch set_token s (init r0)) = Halted \<longrightarrow>
            trace (exec fetch set_token s (init r0)) =
              page_trace set_token r0 ps @
              [Fetched (req_after set_token r0 ps) (Inl e), ErrDelivered e, Closed]
          \<and> emitted (trace (exec fetch set_token s (init r0))) = concat (map Items ps)
          \<and> errors (trace (exec fetch set_token s (init r0))) = [e]
          \<and> length (fetches (trace (exec fetch set_token s (init r0)))) = Suc (length ps))
       \<and> Cancel \<notin> set (eager (map Inr ps @ [Inl e] :: (error + 'a Page) list))
       \<and> pc (exec fetch set_token (eager (map Inr ps @ [Inl e])) (init r0)) = Halted"
proof -
  let ?c = "exec fetch set_token s (init r0)"
  let ?A = "page_trace set_token r0 ps"
  let ?F = "Fetched (req_after set_token r0 ps) (Inl e) :: ('r, 'a) event"
  let ?tail = "[?F, ErrDelivered e, Closed]"
  let ?rs = "map Inr ps @ [Inl e] :: (error + 'a Page) list"
  have comp: "complete ?rs"
    using assms(1) by (rule complete_failing)
  have os: "on_script fetch set_token (init r0) ?rs"
    using assms(2) comp by (rule on_script_init)
  have ex: "expected set_token r0 ?rs = ?A @ ?tail"
    using assms(1) by (rule expected_failing)
  from exec_on_script[OF os assms(3)] obtain rs' where
    inv: "trace ?c @ rest set_token ?c rs' = ?A @ ?tail"
    by (auto simp: rest_init ex trace_init)
  have p: "prefix (trace ?c) (?A @ ?tail)"
    using inv by (metis prefixI)
  have nf: "length (fetches (trace ?c)) \<le> Suc (length ps)"
    using prefix_fetches[OF p] by (simp add: fetches_append length_fetches_page_trace)
  have ne: "length (errors (trace ?c)) \<le> 1"
    using prefix_errors[OF p] by (simp add: errors_append errors_page_trace)
  have em: "?F \<in> set (trace ?c) \<longrightarrow> emitted (trace ?c) = concat (map Items ps)"
  proof
    assume F: "?F \<in> set (trace ?c)"
    from p consider "prefix (trace ?c) ?A" | us where "trace ?c = ?A @ us" "prefix us ?tail"
      by (auto simp: prefix_append)
    then show "emitted (trace ?c) = concat (map Items ps)"
    proof cases
      case 1
      then have "set (trace ?c) \<subseteq> set ?A" by (rule set_mono_prefix)
      moreover have "?F \<notin> set ?A" by (rule failed_fetch_notin_page_trace)
      ultimately show ?thesis using F by auto
    next
      case 2
      from prefix_emitted[OF 2(2)] have "emitted us = []" by simp
      with 2(1) show ?thesis by (simp add: emitted_append emitted_page_trace)
    qed
  qed
  have h: "pc ?c = Halted \<longrightarrow> trace ?c = ?A @ ?tail
          \<and> emitted (trace ?c) = concat (map Items ps) \<and> errors (trace ?c) = [e]
          \<and> length (fetches (trace ?c)) = Suc (length ps)"
  proof
    assume "pc ?c = Halted"
    with inv have "trace ?c = ?A @ ?tail" by (simp add: rest_Halted)
    then show "trace ?c = ?A @ ?tail
          \<and> emitted (trace ?c) = concat (map Items ps) \<and> errors (trace ?c) = [e]
          \<and> length (fetches (trace ?c)) = Suc (length ps)"
      by (simp add: emitted_append emitted_page_trace errors_append errors_page_trace
          fetches_append length_fetches_page_trace)
  qed
  have l: "pc (exec fetch set_token (eager ?rs) (init r0)) = Halted"
    using os by (rule eager_halts) (simp add: init_def)
  from p nf ne em h l Cancel_notin_eager show ?thesis by blast
qed

theorem C2_fetch_error_stops_pagination_witness:
  "trace (mediaitems_List
      (\<lambda>k hreq. if k = 0 then Inr \<lparr>RespBody = ''page'', CloseResult = None\<rparr>
                 else Inl (TransportError ''connection reset''))
      (\<lambda>b. Inr \<lparr>Items = [''A'', ''B''], NextPageToken = ''x''\<rparr>)
      [Go, Recv, Recv, Go, Go, RecvErr, Go]
      \<lparr>PageSize = 0, PageToken = [], ExcludeNonAppCreatedData = False\<rparr>)
   = [Fetched \<lparr>PageSize = 0, PageToken = [], ExcludeNonAppCreatedData = False\<rparr>
        (Inr \<lparr>Items = [''A'', ''B''], NextPageToken = ''x''\<rparr>),
      Emitted ''A'', Emitted ''B'',
      Fetched \<lparr>PageSize = 0, PageToken = ''x'', ExcludeNonAppCreatedData = False\<rparr>
        (Inl (TransportError ''connection reset'')),
      ErrDelivered (TransportError ''connection reset''), Closed]"
proof -
  let ?client = "\<lambda>(k::nat) (hreq::http_request).
     (if k = 0 then Inr \<lparr>RespBody = ''page'', CloseResult = None\<rparr>
      else Inl (TransportError ''connection reset'') :: error + string http_response)"
  let ?dec = "\<lambda>b::string. (Inr \<lparr>Items = [''A'', ''B''], NextPageToken = ''x''\<rparr> :: error + string Page)"
  let ?fetch = "\<lambda>k r. fst (mediaitems_list (?client k) ?dec r)"
  let ?st = "\<lambda>tok (r::ListRequest). r\<lparr>PageToken := tok\<rparr>"
  let ?ps = "[\<lparr>Items = [''A'', ''B''], NextPageToken = ''x''\<rparr>]"
  let ?r0 = "\<lparr>PageSize = 0, PageToken = [], ExcludeNonAppCreatedData = False\<rparr>"
  let ?s = "[Go, Recv, Recv, Go, Go, RecvErr, Go]"
  have 1: "\<forall>p\<in>set ?ps. NextPageToken p \<noteq> []" by simp
  have 2: "answers ?fetch ?st 0 ?r0 (map Inr ?ps @ [Inl (TransportError ''connection reset'')])"
    by (simp add: mediaitems_list_def)
  have 3: "Cancel \<notin> set ?s" by simp
  have 4: "pc (exec ?fetch ?st ?s (init ?r0)) = Halted"
    by (simp add: mediaitems_list_def step_def init_def Let_def)
  from C2_fetch_error_stops_pagination[OF 1 2 3] 4
  have "trace (exec ?fetch ?st ?s (init ?r0)) =
          page_trace ?st ?r0 ?ps @
          [Fetched (req_after ?st ?r0 ?ps) (Inl (TransportError ''connection reset'')),
           ErrDelivered (TransportError ''connection reset''), Closed]"
    by blast
  then show ?thesis by (simp add: mediaitems_List_def)
qed

subsection \<open>After a cancellation\<close>

lemma step_Halted: "pc c = Halted \<Longrightarrow> pc (step f st a c) = Halted"
  by (simp add: step_def split: action.splits)

lemma exec_Halted: "pc c = Halted \<Longrightarrow> pc (exec f st s c) = Halted"
  by (induction s arbitrary: c) (auto simp: step_Halted)

lemma exec_after_cancel:
  assumes "ctx_done c" "pc c = Emit xs tok \<or> pc c = LoopHead \<or> pc c = Ret \<or> pc c = Halted"
  shows "\<exists>ys. prefix ys (case pc c of Emit zs t \<Rightarrow> zs | _ \<Rightarrow> []) \<and>
           trace (exec f st s c) =
             trace c @ map Emitted ys @
             (if pc (exec f st s c) = Halted \<and> pc c \<noteq> Halted then [Closed] else []) \<and>
           (Recv \<notin> set s \<longrightarrow> ys = [])"
  using assms
proof (induction s arbitrary: c xs tok)
  case Nil
  then show ?case by (intro exI[of _ "[]"]) auto
next
  case (Cons a s)
  let ?c1 = "step f st a c"
  let ?P = "\<lambda>c ys. prefix ys (case pc c of Emit zs t \<Rightarrow> zs | _ \<Rightarrow> []) \<and>
           trace (exec f st s c) =
             trace c @ map Emitted ys @
             (if pc (exec f st s c) = Halted \<and> pc c \<noteq> Halted then [Closed] else []) \<and>
           (Recv \<notin> set s \<longrightarrow> ys = [])"
  have stutter: ?case if "?c1 = c"
  proof -
    from Cons.IH[OF Cons.prems] obtain ys where "?P c ys" by blast
    with that show ?thesis by (intro exI[of _ ys]) (auto split: if_splits)
  qed
  have silent: ?case
    if "pc ?c1 = LoopHead \<or> pc ?c1 = Ret" "trace ?c1 = trace c" "ctx_done ?c1" "pc c \<noteq> Halted"
        "a \<noteq> Recv"
  proof -
    from that(1) have "pc ?c1 = Emit [] [] \<or> pc ?c1 = LoopHead \<or> pc ?c1 = Ret \<or> pc ?c1 = Halted"
      by blast
    from Cons.IH[OF that(3) this] obtain ys where "?P ?c1 ys" by blast
    with that show ?thesis by (intro exI[of _ "[]"]) (auto split: if_splits)
  qed
  show ?case
  proof (cases a)
    case Cancel
    with Cons.prems(1) show ?thesis by (intro stutter) (simp add: step_def)
  next
    case RecvErr
    with Cons.prems(2) show ?thesis by (intro stutter) (auto simp: step_def)
  next
    case Recv
    show ?thesis
    proof (cases "\<exists>x xs' t. pc c = Emit (x # xs') t")
      case True
      then obtain x xs' t where Emit: "pc c = Emit (x # xs') t" by blast
      have 1: "pc ?c1 = Emit xs' t" "trace ?c1 = trace c @ [Emitted x]" "ctx_done ?c1"
        using Recv Emit Cons.prems(1) by (simp_all add: step_def)
      then have "pc ?c1 = Emit xs' t \<or> pc ?c1 = LoopHead \<or> pc ?c1 = Ret \<or> pc ?c1 = Halted"
        by blast
      from Cons.IH[OF 1(3) this] obtain ys where "?P ?c1 ys" by blast
      with 1 Emit Recv show ?thesis by (intro exI[of _ "x # ys"]) auto
    next
      case False
      with Recv have "?c1 = c"
        by (auto simp: step_def split: pc.splits list.splits)
      then show ?thesis by (rule stutter)
    qed
  next
    case Go
    show ?thesis
    proof (cases "pc c")
      case LoopHead
      with Go Cons.prems(1) show ?thesis by (intro silent) (simp_all add: step_def)
    next
      case (SendErr e)
      with Cons.prems(2) show ?thesis by simp
    next
      case (Emit zs t)
      with Go Cons.prems(1) show ?thesis
        by (intro silent) (auto simp: step_def split: list.splits)
    next
      case Ret
      have 1: "pc ?c1 = Halted" "trace ?c1 = trace c @ [Closed]" "ctx_done ?c1"
        using Go Ret Cons.prems(1) by (simp_all add: step_def)
      then have "pc ?c1 = Emit [] [] \<or> pc ?c1 = LoopHead \<or> pc ?c1 = Ret \<or> pc ?c1 = Halted"
        by blast
      from Cons.IH[OF 1(3) this] obtain ys where "?P ?c1 ys" by blast
      with 1 Ret exec_Halted[OF 1(1), of f st s] show ?thesis
        by (intro exI[of _ "[]"]) (auto split: if_splits)
    next
      case Halted
      with Go show ?thesis by (intro stutter) (simp add: step_def)
    qed
  qed
qed

lemma step_winding_down:
  "ctx_done c \<Longrightarrow> \<forall>e. pc c \<noteq> SendErr e \<Longrightarrow>
   ctx_done (step f st a c) \<and> (\<forall>e. pc (step f st a c) \<noteq> SendErr e)"
  by (cases a; cases "pc c") (auto simp: step_def split: list.splits)

lemma exec_winding_down:
  "ctx_done c \<Longrightarrow> \<forall>e. pc c \<noteq> SendErr e \<Longrightarrow>
   ctx_done (exec f st s c) \<and> (\<forall>e. pc (exec f st s c) \<noteq> SendErr e)"
proof (induction s arbitrary: c)
  case Nil
  then show ?case by simp
next
  case (Cons a s)
  from step_winding_down[OF Cons.prems] Cons.IH show ?case by simp
qed

lemma three_Go_halt:
  "ctx_done c \<Longrightarrow> \<forall>e. pc c \<noteq> SendErr e \<Longrightarrow> pc (exec f st [Go, Go, Go] c) = Halted"
  by (cases "pc c") (auto simp: step_def split: list.splits)

text \<open>
  C3, as amended. Let the goroutine stand in the inner loop with the items \<open>xs\<close> of the
  current page still to send, and let the context be cancelled there. The claim says
  that no further item is emitted. The \<open>select\<close> of the inner loop has the cancellation
  and the send as two cases, and when the consumer is receiving both are ready, so Go
  picks either: the send can still complete. What holds is that after the cancellation
  the run adds to the trace only items \<open>ys\<close>, a prefix of \<open>xs\<close>, and the close of the item
  channel: no fetch and no error. If the consumer does not receive after the cancellation
  then \<open>ys\<close> is empty, that is, exactly the items sent before are emitted. Whatever
  happened in between, three steps of the goroutine then end it.
\<close>

theorem C3_cancel_during_emission:
  fixes fetch :: "nat \<Rightarrow> 'r \<Rightarrow> error + 'a Page"
  assumes "pc (exec fetch set_token s1 (init r0)) = Emit xs tok"
    and "\<not> ctx_done (exec fetch set_token s1 (init r0))"
  shows "(\<exists>ys. prefix ys xs \<and>
            trace (exec fetch set_token (s1 @ Cancel # s2) (init r0)) =
              trace (exec fetch set_token s1 (init r0)) @ Cancelled # map Emitted ys @
              (if pc (exec fetch set_token (s1 @ Cancel # s2) (init r0)) = Halted
               then [Closed] else []) \<and>
            (Recv \<notin> set s2 \<longrightarrow> ys = []))
       \<and> pc (exec fetch set_token (s1 @ Cancel # s2 @ [Go, Go, Go]) (init r0)) = Halted"
proof -
  let ?c = "exec fetch set_token s1 (init r0)"
  let ?c1 = "step fetch set_token Cancel ?c"
  have c1: "ctx_done ?c1" "pc ?c1 = Emit xs tok" "trace ?c1 = trace ?c @ [Cancelled]"
    using assms by (simp_all add: step_def)
  then have "pc ?c1 = Emit xs tok \<or> pc ?c1 = LoopHead \<or> pc ?c1 = Ret \<or> pc ?c1 = Halted"
    by blast
  from exec_after_cancel[OF c1(1) this, of fetch set_token s2] c1
  have a: "\<exists>ys. prefix ys xs \<and>
            trace (exec fetch set_token (s1 @ Cancel # s2) (init r0)) =
              trace ?c @ Cancelled # map Emitted ys @
              (if pc (exec fetch set_token (s1 @ Cancel # s2) (init r0)) = Halted
               then [Closed] else []) \<and>
            (Recv \<notin> set s2 \<longrightarrow> ys = [])"
    by (simp add: exec_append)
  have "\<forall>e. pc ?c1 \<noteq> SendErr e" using c1(2) by simp
  from exec_winding_down[OF c1(1) this, of fetch set_token s2]
  have "pc (exec fetch set_token [Go, Go, Go] (exec fetch set_token s2 ?c1)) = Halted"
    by (intro three_Go_halt) auto
  then have b: "pc (exec fetch set_token (s1 @ Cancel # s2 @ [Go, Go, Go]) (init r0)) = Halted"
    by (simp add: exec_append)
  from a b show ?thesis by blast
qed

theorem C3_cancel_during_emission_witness:
  "trace (Search
      (\<lambda>k hreq. Inr \<lparr>RespBody = ''page'', CloseResult = None\<rparr>)
      (\<lambda>b. Inr \<lparr>Items = [''A'', ''B'', ''C''], NextPageToken = ''x''\<rparr>)
      [Go, Recv, Cancel, Go, Go]
      \<lparr>AlbumID = [], SearchPageSize = 0, SearchPageToken = [], Filters = (), OrderBy = []\<rparr>)
   = [Fetched \<lparr>AlbumID = [], SearchPageSize = 0, SearchPageToken = [], Filters = (), OrderBy = []\<rparr>
        (Inr \<lparr>Items = [''A'', ''B'', ''C''], NextPageToken = ''x''\<rparr>),
      Emitted ''A'', Cancelled, Closed]"
proof -
  let ?client = "\<lambda>(k::nat) (hreq::http_request).
     (Inr \<lparr>RespBody = ''page'', CloseResult = None\<rparr> :: error + string http_response)"
  let ?dec = "\<lambda>b::string. (Inr \<lparr>Items = [''A'', ''B'', ''C''], NextPageToken = ''x''\<rparr> :: error + string Page)"
  let ?fetch = "\<lambda>k r. fst (search (?client k) ?dec r)"
  let ?st = "\<lambda>tok (r::SearchMediaItemRequest). r\<lparr>SearchPageToken := tok\<rparr>"
  let ?r0 = "\<lparr>AlbumID = [], SearchPageSize = 0, SearchPageToken = [], Filters = (), OrderBy = []\<rparr>"
  let ?c = "exec ?fetch ?st [Go, Recv] (init ?r0)"
  let ?c' = "exec ?fetch ?st ([Go, Recv] @ Cancel # [Go, Go]) (init ?r0)"
  have 1: "pc ?c = Emit [''B'', ''C''] ''x''"
    by (simp add: search_def step_def init_def Let_def)
  have 2: "\<not> ctx_done ?c"
    by (simp add: search_def step_def init_def Let_def)
  have 3: "trace ?c = [Fetched ?r0 (Inr \<lparr>Items = [''A'', ''B'', ''C''], NextPageToken = ''x''\<rparr>), Emitted ''A'']"
    by (simp add: search_def step_def init_def Let_def)
  have 4: "pc ?c' = Halted"
    by (simp add: search_def step_def init_def Let_def)
  have 5: "Recv \<notin> set [Go, Go]" by simp
  from C3_cancel_during_emission[OF 1 2, of "[Go, Go]"] 4 5
  have "trace ?c' = trace ?c @ [Cancelled, Closed]"
    by auto
  with 3 show ?thesis by (simp add: Search_def)
qed

text \<open>
  The counterexample to C3 as stated: one page with the items \<open>A\<close>, \<open>B\<close>. After \<open>A\<close> was
  received (\<open>M = 1\<close>) the goroutine stands before the send of \<open>B\<close>; the context is
  cancelled, the consumer receives once more, and \<open>B\<close> is emitted after the cancellation.
\<close>

theorem C3_exactly_M_counterexample:
  "pc (albums_List
        (\<lambda>k hreq. Inr \<lparr>RespBody = ''page'', CloseResult = None\<rparr>)
        (\<lambda>b. Inr \<lparr>Items = [''A'', ''B''], NextPageToken = []\<rparr>)
        [Go, Recv]
        \<lparr>PageSize = 0, PageToken = [], ExcludeNonAppCreatedData = False\<rparr>)
     = Emit [''B''] []
   \<and> emitted (trace (albums_List
        (\<lambda>k hreq. Inr \<lparr>RespBody = ''page'', CloseResult = None\<rparr>)
        (\<lambda>b. Inr \<lparr>Items = [''A'', ''B''], NextPageToken = []\<rparr>)
        [Go, Recv]
        \<lparr>PageSize = 0, PageToken = [], ExcludeNonAppCreatedData = False\<rparr>))
     = [''A'']
   \<and> trace (albums_List
        (\<lambda>k hreq. Inr \<lparr>RespBody = ''page'', CloseResult = None\<rparr>)
        (\<lambda>b. Inr \<lparr>Items = [''A'', ''B''], NextPageToken = []\<rparr>)
        [Go, Recv, Cancel, Recv, Go, Go]
        \<lparr>PageSize = 0, PageToken = [], ExcludeNonAppCreatedData = False\<rparr>)
     = [Fetched \<lparr>PageSize = 0, PageToken = [], ExcludeNonAppCreatedData = False\<rparr>
          (Inr \<lparr>Items = [''A'', ''B''], NextPageToken = []\<rparr>),
        Emitted ''A'', Cancelled, Emitted ''B'', Closed]"
  by (simp add: albums_List_def albums_list_def step_def init_def Let_def)

subsection \<open>Invariants of every run\<close>

lemma sound_init: "sound (init r0)"
  by (simp add: sound_def init_def)

lemma halt_cause_append: "halt_cause tr \<Longrightarrow> halt_cause (tr @ evs)"
  by (auto simp: halt_cause_def)

lemma sound_step: "sound c \<Longrightarrow> sound (step f st a c)"
proof (cases a)
  case Cancel
  assume "sound c"
  with Cancel show ?thesis
    by (auto simp: sound_def step_def halt_cause_def errors_append fetches_append)
next
  case Go
  assume s: "sound c"
  show ?thesis
  proof (cases "pc c")
    case LoopHead
    with s Go show ?thesis
      by (cases "f (calls c) (req c)")
         (auto simp: sound_def step_def halt_cause_def errors_append fetches_append Let_def)
  next
    case (SendErr e)
    with s Go show ?thesis by (simp add: step_def)
  next
    case (Emit xs tok)
    with s Go show ?thesis
      by (cases xs) (auto simp: sound_def step_def halt_cause_def)
  next
    case Ret
    with s Go show ?thesis
      by (auto simp: sound_def step_def halt_cause_def errors_append fetches_append)
  next
    case Halted
    with s Go show ?thesis by (simp add: step_def)
  qed
next
  case Recv
  assume s: "sound c"
  show ?thesis
  proof (cases "pc c")
    case (Emit xs tok)
    with s Recv show ?thesis
      by (cases xs) (auto simp: sound_def step_def errors_append fetches_append)
  qed (use s Recv in \<open>simp_all add: step_def\<close>)
next
  case RecvErr
  assume s: "sound c"
  show ?thesis
  proof (cases "pc c")
    case (SendErr e)
    with s RecvErr show ?thesis
      by (auto simp: sound_def step_def halt_cause_def errors_append fetches_append)
  qed (use s RecvErr in \<open>simp_all add: step_def\<close>)
qed

lemma sound_exec: "sound c \<Longrightarrow> sound (exec f st s c)"
  by (induction s arbitrary: c) (auto simp: sound_step)

subsection \<open>A token that never becomes empty\<close>

lemma looping_step:
  assumes "tok \<noteq> []" "\<forall>k r. \<exists>p. fetch k r = Inr p \<and> NextPageToken p = tok"
    "a \<noteq> Cancel" "looping tok c"
  shows "looping tok (step fetch st a c)"
proof (cases "pc c = LoopHead")
  case True
  from assms(2) obtain p where "fetch (calls c) (req c) = Inr p" "NextPageToken p = tok"
    by blast
  with True assms(3,4) show ?thesis
    by (cases a) (auto simp: looping_def step_def)
next
  case False
  with assms(4) obtain xs where "pc c = Emit xs tok" "\<not> ctx_done c"
    by (auto simp: looping_def)
  with assms(1,3) show ?thesis
    by (cases a; cases xs) (auto simp: looping_def step_def)
qed

lemma looping_exec:
  assumes "tok \<noteq> []" "\<forall>k r. \<exists>p. fetch k r = Inr p \<and> NextPageToken p = tok"
  shows "Cancel \<notin> set s \<Longrightarrow> looping tok c \<Longrightarrow> looping tok (exec fetch st s c)"
proof (induction s arbitrary: c)
  case Nil
  then show ?case by simp
next
  case (Cons a s)
  from Cons.prems have "a \<noteq> Cancel" "Cancel \<notin> set s" by auto
  from looping_step[OF assms \<open>a \<noteq> Cancel\<close> Cons.prems(2)] Cons.IH[OF \<open>Cancel \<notin> set s\<close>]
  show ?case by simp
qed

lemma looping_next_fetch:
  assumes "tok \<noteq> []" "\<forall>k r. \<exists>p. fetch k r = Inr p \<and> NextPageToken p = tok" "looping tok c"
  shows "\<exists>s'. Cancel \<notin> set s' \<and> calls (exec fetch st s' c) = Suc (calls c)"
proof (cases "pc c = LoopHead")
  case True
  with assms(3) have "calls (exec fetch st [Go] c) = Suc (calls c)"
    by (simp add: looping_def step_def Let_def)
  then show ?thesis by (intro exI[of _ "[Go]"]) simp
next
  case False
  with assms(3) obtain xs where pc: "pc c = Emit xs tok" and nd: "\<not> ctx_done c"
    by (auto simp: looping_def)
  let ?s = "replicate (length xs) Recv @ [Go, Go]"
  have "calls (exec fetch st ?s c) = Suc (calls c)"
    using assms(1) nd by (simp add: exec_append exec_Recv_all[OF pc] step_def Let_def)
  moreover have "Cancel \<notin> set ?s" by simp
  ultimately show ?thesis by blast
qed

lemma looping_fetches_on:
  assumes "tok \<noteq> []" "\<forall>k r. \<exists>p. fetch k r = Inr p \<and> NextPageToken p = tok" "looping tok c"
  shows "\<exists>s'. Cancel \<notin> set s' \<and> calls (exec fetch st s' c) = calls c + n"
proof (induction n)
  case 0
  show ?case by (intro exI[of _ "[]"]) simp
next
  case (Suc n)
  then obtain s1 where s1: "Cancel \<notin> set s1" "calls (exec fetch st s1 c) = calls c + n"
    by blast
  have "looping tok (exec fetch st s1 c)"
    using assms s1(1) by (intro looping_exec)
  from looping_next_fetch[OF assms(1,2) this, of st] obtain s2 where
    s2: "Cancel \<notin> set s2" "calls (exec fetch st s2 (exec fetch st s1 c)) = Suc (calls (exec fetch st s1 c))"
    by blast
  with s1 show ?case by (intro exI[of _ "s1 @ s2"]) (simp add: exec_append)
qed

lemma looping_init: "looping tok (init r0)"
  by (simp add: looping_def init_def)

text \<open>
  C7. The loop compares no token with an earlier one. If every fetch succeeds with the
  same non-empty token \<open>tok\<close> and the context is not cancelled, then no run reaches the end
  of the goroutine: the item channel is never closed, no error is delivered, and every
  run has a continuation with \<open>n\<close> more fetches, for every \<open>n\<close> (a consumer that keeps
  receiving makes the goroutine fetch again and again). And for every transport and every
  schedule, a goroutine that has finished has seen a cancellation, a failed fetch or a
  page with the empty token.
\<close>

theorem C7_repeated_token_never_terminates:
  fixes fetch :: "nat \<Rightarrow> 'r \<Rightarrow> error + 'a Page"
  shows "(tok \<noteq> [] \<and> (\<forall>k r. \<exists>p. fetch k r = Inr p \<and> NextPageToken p = tok) \<and> Cancel \<notin> set s
          \<longrightarrow> pc (exec fetch set_token s (init r0)) \<noteq> Halted
            \<and> Closed \<notin> set (trace (exec fetch set_token s (init r0)))
            \<and> errors (trace (exec fetch set_token s (init r0))) = []
            \<and> (\<forall>n. \<exists>s'. Cancel \<notin> set s' \<and>
                  length (fetches (trace (exec fetch set_token (s @ s') (init r0)))) =
                  length (fetches (trace (exec fetch set_token s (init r0)))) + n))
       \<and> (pc (exec fetch set_token s (init r0)) = Halted \<longrightarrow>
            Cancelled \<in> set (trace (exec fetch set_token s (init r0))) \<or>
            (\<exists>r e. Fetched r (Inl e) \<in> set (trace (exec fetch set_token s (init r0)))) \<or>
            (\<exists>r p. Fetched r (Inr p) \<in> set (trace (exec fetch set_token s (init r0))) \<and>
                   NextPageToken p = []))"
proof (intro conjI impI)
  let ?c = "exec fetch set_token s (init r0)"
  have snd: "sound ?c" by (intro sound_exec sound_init)
  {
    assume "pc ?c = Halted"
    with snd have "halt_cause (trace ?c)" by (simp add: sound_def)
    then show "Cancelled \<in> set (trace ?c) \<or>
            (\<exists>r e. Fetched r (Inl e) \<in> set (trace ?c)) \<or>
            (\<exists>r p. Fetched r (Inr p) \<in> set (trace ?c) \<and> NextPageToken p = [])"
      by (simp add: halt_cause_def)
  }
  assume h: "tok \<noteq> [] \<and> (\<forall>k r. \<exists>p. fetch k r = Inr p \<and> NextPageToken p = tok) \<and> Cancel \<notin> set s"
  then have lp: "looping tok ?c"
    by (intro looping_exec looping_init) auto
  then show nh: "pc ?c \<noteq> Halted" by (auto simp: looping_def)
  with snd show "Closed \<notin> set (trace ?c)" by (simp add: sound_def)
  from lp snd show "errors (trace ?c) = []" by (auto simp: looping_def sound_def)
  show "\<forall>n. \<exists>s'. Cancel \<notin> set s' \<and>
          length (fetches (trace (exec fetch set_token (s @ s') (init r0)))) =
          length (fetches (trace ?c)) + n"
  proof
    fix n
    from h have "tok \<noteq> []" "\<forall>k r. \<exists>p. fetch k r = Inr p \<and> NextPageToken p = tok" by auto
    from looping_fetches_on[OF this lp, of set_token n] obtain s' where
      s': "Cancel \<notin> set s'" "calls (exec fetch set_token s' ?c) = calls ?c + n" by blast
    have "sound (exec fetch set_token (s @ s') (init r0))" by (intro sound_exec sound_init)
    with snd s'(2) have "length (fetches (trace (exec fetch set_token (s @ s') (init r0)))) =
          length (fetches (trace ?c)) + n"
      by (simp add: sound_def exec_append)
    with s'(1) show "\<exists>s'. Cancel \<notin> set s' \<and>
          length (fetches (trace (exec fetch set_token (s @ s') (init r0)))) =
          length (fetches (trace ?c)) + n" by blast
  qed
qed

theorem C7_repeated_token_never_terminates_witness:
  "pc (albums_List
        (\<lambda>k hreq. Inr \<lparr>RespBody = ''page'', CloseResult = None\<rparr>)
        (\<lambda>b. Inr \<lparr>Items = [''test-a''], NextPageToken = ''1''\<rparr>)
        [Go, Recv, Go, Go]
        \<lparr>PageSize = 0, PageToken = [], ExcludeNonAppCreatedData = False\<rparr>) \<noteq> Halted
   \<and> length (fetches (trace (albums_List
        (\<lambda>k hreq. Inr \<lparr>RespBody = ''page'', CloseResult = None\<rparr>)
        (\<lambda>b. Inr \<lparr>Items = [''test-a''], NextPageToken = ''1''\<rparr>)
        [Go, Recv, Go, Go]
        \<lparr>PageSize = 0, PageToken = [], ExcludeNonAppCreatedData = False\<rparr>))) = 2"
proof -
  let ?client = "\<lambda>(k::nat) (hreq::http_request).
     (Inr \<lparr>RespBody = ''page'', CloseResult = None\<rparr> :: error + string http_response)"
  let ?dec = "\<lambda>b::string. (Inr \<lparr>Items = [''test-a''], NextPageToken = ''1''\<rparr> :: error + string Page)"
  let ?fetch = "\<lambda>k r. fst (albums_list (?client k) ?dec r)"
  let ?st = "\<lambda>tok (r::ListRequest). r\<lparr>PageToken := tok\<rparr>"
  let ?r0 = "\<lparr>PageSize = 0, PageToken = [], ExcludeNonAppCreatedData = False\<rparr>"
  let ?s = "[Go, Recv, Go, Go]"
  have 1: "''1'' \<noteq> []" by simp
  have 2: "\<forall>k r. \<exists>p. ?fetch k r = Inr p \<and> NextPageToken p = ''1''"
    by (simp add: albums_list_def)
  have 3: "Cancel \<notin> set ?s" by simp
  from C7_repeated_token_never_terminates[of "''1''" ?fetch ?s ?st ?r0] 1 2 3
  have "pc (exec ?fetch ?st ?s (init ?r0)) \<noteq> Halted" by blast
  moreover have "length (fetches (trace (exec ?fetch ?st ?s (init ?r0)))) = 2"
    by (simp add: albums_list_def step_def init_def Let_def)
  ultimately show ?thesis by (simp add: albums_List_def)
qed

subsection \<open>The order of the error and the close\<close>

lemma step_trace:
  "trace (step f st a c) = trace c \<or>
   (\<exists>ev. trace (step f st a c) = trace c @ [ev] \<and> (\<forall>e. ev = ErrDelivered e \<longrightarrow> pc c = SendErr e))"
  by (cases a; cases "pc c") (auto simp: step_def Let_def split: list.splits)

lemma error_first_snoc:
  assumes "error_first tr" "\<forall>e. ev = ErrDelivered e \<longrightarrow> Closed \<notin> set tr"
  shows "error_first (tr @ [ev])"
  unfolding error_first_def
proof (intro allI impI)
  fix pre e post
  assume eq: "tr @ [ev] = pre @ ErrDelivered e # post"
  show "Closed \<notin> set pre"
  proof (cases post rule: rev_cases)
    case Nil
    with eq have "tr = pre" "ev = ErrDelivered e" by auto
    with assms(2) show ?thesis by simp
  next
    case (snoc post' z)
    with eq have "tr = pre @ ErrDelivered e # post'" by auto
    with assms(1) show ?thesis by (auto simp: error_first_def)
  qed
qed

lemma error_first_step:
  assumes "sound c" "error_first (trace c)"
  shows "error_first (trace (step f st a c))"
proof -
  from step_trace[of f st a c] consider "trace (step f st a c) = trace c"
    | ev where "trace (step f st a c) = trace c @ [ev]" "\<forall>e. ev = ErrDelivered e \<longrightarrow> pc c = SendErr e"
    by blast
  then show ?thesis
  proof cases
    case 1
    with assms(2) show ?thesis by simp
  next
    case 2
    have "\<forall>e. ev = ErrDelivered e \<longrightarrow> Closed \<notin> set (trace c)"
      using 2(2) assms(1) by (auto simp: sound_def)
    with 2(1) assms(2) show ?thesis by (simp add: error_first_snoc)
  qed
qed

lemma error_first_exec:
  "sound c \<Longrightarrow> error_first (trace c) \<Longrightarrow> error_first (trace (exec f st s c))"
proof (induction s arbitrary: c)
  case Nil
  then show ?case by simp
next
  case (Cons a s)
  from Cons.IH[OF sound_step[OF Cons.prems(1)] error_first_step[OF Cons.prems]]
  show ?case by simp
qed

lemma error_first_init: "error_first (trace (init r0))"
  by (simp add: error_first_def init_def)

lemma failure_pending_init: "failure_pending (init r0)"
  by (simp add: failure_pending_def init_def)

lemma failure_pending_step: "failure_pending c \<Longrightarrow> failure_pending (step f st a c)"
proof (cases a)
  case Cancel
  assume "failure_pending c"
  with Cancel show ?thesis by (auto simp: failure_pending_def step_def)
next
  case Go
  assume s: "failure_pending c"
  show ?thesis
  proof (cases "pc c")
    case LoopHead
    with s Go show ?thesis
      by (cases "f (calls c) (req c)") (auto simp: failure_pending_def step_def Let_def)
  next
    case (SendErr e)
    with s Go show ?thesis by (simp add: step_def)
  next
    case (Emit xs tok)
    with s Go show ?thesis
      by (cases xs) (auto simp: failure_pending_def step_def)
  next
    case Ret
    with s Go show ?thesis by (auto simp: failure_pending_def step_def)
  next
    case Halted
    with s Go show ?thesis by (simp add: step_def)
  qed
next
  case Recv
  assume s: "failure_pending c"
  show ?thesis
  proof (cases "pc c")
    case (Emit xs tok)
    with s Recv show ?thesis
      by (cases xs) (auto simp: failure_pending_def step_def)
  qed (use s Recv in \<open>simp_all add: step_def\<close>)
next
  case RecvErr
  assume s: "failure_pending c"
  show ?thesis
  proof (cases "pc c")
    case (SendErr e)
    with s RecvErr show ?thesis by (auto simp: failure_pending_def step_def)
  qed (use s RecvErr in \<open>simp_all add: step_def\<close>)
qed

lemma failure_pending_exec: "failure_pending c \<Longrightarrow> failure_pending (exec f st s c)"
  by (induction s arbitrary: c) (auto simp: failure_pending_step)

lemma SendErr_finishes: "pc c = SendErr e \<Longrightarrow> pc (exec f st [RecvErr, Go] c) = Halted"
  by (simp add: step_def)

text \<open>
  C8. In every run, for every transport and schedule: if a fetch has failed with \<open>e\<close> and
  the item channel is closed, then the trace has the delivery of \<open>e\<close> on the error
  channel, the close of the item channel stands after it and not before it, and \<open>e\<close> is
  the only error delivered. As long as the error of a failed fetch is not delivered, the
  goroutine stands in \<open>errCh <- err\<close> with the item channel open, and a receive on the
  error channel followed by a step of the goroutine ends the run. And wherever a trace
  has a delivery, no close stands before it. The goroutine completes \<open>errCh <- err\<close> and
  only then returns into the deferred \<open>close\<close>.
\<close>

theorem C8_error_delivered_before_close:
  fixes fetch :: "nat \<Rightarrow> 'r \<Rightarrow> error + 'a Page"
  shows "(Fetched r (Inl e) \<in> set (trace (exec fetch set_token s (init r0))) \<and>
          (item_closed (exec fetch set_token s (init r0)) \<or>
           Closed \<in> set (trace (exec fetch set_token s (init r0))))
          \<longrightarrow> (\<exists>pre post. trace (exec fetch set_token s (init r0)) = pre @ ErrDelivered e # post
                 \<and> Closed \<notin> set pre \<and> errors pre = [] \<and> errors post = []
                 \<and> Closed \<in> set post))
       \<and> (Fetched r (Inl e) \<in> set (trace (exec fetch set_token s (init r0))) \<and>
          ErrDelivered e \<notin> set (trace (exec fetch set_token s (init r0)))
          \<longrightarrow> pc (exec fetch set_token s (init r0)) = SendErr e
            \<and> \<not> item_closed (exec fetch set_token s (init r0))
            \<and> Closed \<notin> set (trace (exec fetch set_token s (init r0)))
            \<and> pc (exec fetch set_token (s @ [RecvErr, Go]) (init r0)) = Halted)
       \<and> (\<forall>pre e' post.
            trace (exec fetch set_token s (init r0)) = pre @ ErrDelivered e' # post
            \<longrightarrow> Closed \<notin> set pre \<and> errors pre = [] \<and> errors post = []
              \<and> (item_closed (exec fetch set_token s (init r0)) \<longrightarrow> Closed \<in> set post))"
proof -
  let ?c = "exec fetch set_token s (init r0)"
  have snd: "sound ?c" by (intro sound_exec sound_init)
  have ef: "error_first (trace ?c)"
    by (intro error_first_exec sound_init error_first_init)
  have fp: "failure_pending ?c" by (intro failure_pending_exec failure_pending_init)
  have len: "length (errors (trace ?c)) \<le> 1" using snd by (simp add: sound_def)
  have closed_iff: "item_closed ?c \<longleftrightarrow> Closed \<in> set (trace ?c)"
    using snd by (simp add: sound_def)
  have C: "Closed \<notin> set pre \<and> errors pre = [] \<and> errors post = []
            \<and> (item_closed ?c \<longrightarrow> Closed \<in> set post)"
    if eq: "trace ?c = pre @ ErrDelivered e' # post" for pre e' post
  proof -
    from ef eq have 1: "Closed \<notin> set pre" by (auto simp: error_first_def)
    from len eq have 2: "errors pre = []" "errors post = []" by (simp_all add: errors_append)
    have "Closed \<in> set post" if "item_closed ?c"
      using that closed_iff eq 1 by auto
    with 1 2 show ?thesis by blast
  qed
  have A: "\<exists>pre post. trace ?c = pre @ ErrDelivered e # post
                 \<and> Closed \<notin> set pre \<and> errors pre = [] \<and> errors post = []
                 \<and> Closed \<in> set post"
    if f: "Fetched r (Inl e) \<in> set (trace ?c)"
      and cl: "item_closed ?c \<or> Closed \<in> set (trace ?c)"
  proof -
    from cl closed_iff have ic: "item_closed ?c" by blast
    with snd have "pc ?c = Halted" by (simp add: sound_def)
    with fp f have "ErrDelivered e \<in> set (trace ?c)" by (auto simp: failure_pending_def)
    then obtain pre post where eq: "trace ?c = pre @ ErrDelivered e # post"
      by (auto simp: in_set_conv_decomp)
    from C[OF eq] ic eq show ?thesis by blast
  qed
  have B: "pc ?c = SendErr e \<and> \<not> item_closed ?c \<and> Closed \<notin> set (trace ?c)
            \<and> pc (exec fetch set_token (s @ [RecvErr, Go]) (init r0)) = Halted"
    if f: "Fetched r (Inl e) \<in> set (trace ?c)" and nd: "ErrDelivered e \<notin> set (trace ?c)"
  proof -
    from fp f nd have pc: "pc ?c = SendErr e" by (auto simp: failure_pending_def)
    with snd have "\<not> item_closed ?c" "Closed \<notin> set (trace ?c)" by (simp_all add: sound_def)
    moreover have "pc (exec fetch set_token (s @ [RecvErr, Go]) (init r0)) = Halted"
      using SendErr_finishes[OF pc] by (simp add: exec_append)
    ultimately show ?thesis using pc by blast
  qed
  from A B C show ?thesis by blast
qed

theorem C8_error_delivered_before_close_witness:
  "(\<exists>pre post.
      trace (Search (\<lambda>k hreq. (Inl (TransportError ''timeout'') :: error + string http_response))
        (\<lambda>b. (Inr \<lparr>Items = [], NextPageToken = []\<rparr> :: error + string Page))
        [Go, RecvErr, Go]
        \<lparr>AlbumID = [], SearchPageSize = 0, SearchPageToken = [], Filters = (), OrderBy = []\<rparr>)
      = pre @ ErrDelivered (TransportError ''timeout'') # post
      \<and> Closed \<notin> set pre \<and> Closed \<in> set post)"
proof -
  let ?client = "\<lambda>(k::nat) (hreq::http_request).
     (Inl (TransportError ''timeout'') :: error + string http_response)"
  let ?dec = "\<lambda>b::string. (Inr \<lparr>Items = [], NextPageToken = []\<rparr> :: error + string Page)"
  let ?fetch = "\<lambda>k r. fst (search (?client k) ?dec r)"
  let ?st = "\<lambda>tok (r::SearchMediaItemRequest). r\<lparr>SearchPageToken := tok\<rparr>"
  let ?r0 = "\<lparr>AlbumID = [], SearchPageSize = 0, SearchPageToken = [], Filters = (), OrderBy = []\<rparr>"
  let ?c = "exec ?fetch ?st [Go, RecvErr, Go] (init ?r0)"
  have 1: "Fetched ?r0 (Inl (TransportError ''timeout'')) \<in> set (trace ?c)"
    by (simp add: search_def step_def init_def Let_def)
  have 2: "item_closed ?c"
    by (simp add: search_def step_def init_def Let_def)
  from C8_error_delivered_before_close
         [of ?r0 "TransportError ''timeout''" ?fetch ?st "[Go, RecvErr, Go]" ?r0] 1 2
  have "\<exists>pre post. trace ?c = pre @ ErrDelivered (TransportError ''timeout'') # post
          \<and> Closed \<notin> set pre \<and> Closed \<in> set post"
    by blast
  then show ?thesis by (simp add: Search_def)
qed

text \<open>
  C10. In every configuration of every run the error channel is open: the goroutine has
  no \<open>close(errCh)\<close>. A receive on it never yields the zero value of a closed channel;
  after the goroutine has finished, a receive on the item channel finds it closed and a
  receive on the error channel blocks. The item channel is closed exactly in the finished
  goroutine.
\<close>

theorem C10_error_channel_never_closed:
  fixes fetch :: "nat \<Rightarrow> 'r \<Rightarrow> error + 'a Page"
  shows "\<not> err_closed (exec fetch set_token s (init r0))
       \<and> recv_err (exec fetch set_token s (init r0)) \<noteq> ZeroOfClosed
       \<and> item_closed (exec fetch set_token s (init r0)) =
           (pc (exec fetch set_token s (init r0)) = Halted)
       \<and> (pc (exec fetch set_token s (init r0)) = Halted \<longrightarrow>
            recv_item (exec fetch set_token s (init r0)) = ZeroOfClosed
          \<and> recv_err (exec fetch set_token s (init r0)) = Blocks)"
proof -
  let ?c = "exec fetch set_token s (init r0)"
  have "sound ?c" by (intro sound_exec sound_init)
  then have "\<not> err_closed ?c" "item_closed ?c = (pc ?c = Halted)"
    by (simp_all add: sound_def)
  then show ?thesis
    by (auto simp: recv_err_def recv_item_def split: pc.splits)
qed

theorem C10_error_channel_never_closed_witness:
  "recv_err (mediaitems_List
      (\<lambda>k hreq. Inr \<lparr>RespBody = ''page'', CloseResult = None\<rparr>)
      (\<lambda>b. Inr \<lparr>Items = [''A''], NextPageToken = []\<rparr>)
      [Go, Recv, Go, Go]
      \<lparr>PageSize = 0, PageToken = [], ExcludeNonAppCreatedData = False\<rparr>) = Blocks
   \<and> recv_item (mediaitems_List
      (\<lambda>k hreq. Inr \<lparr>RespBody = ''page'', CloseResult = None\<rparr>)
      (\<lambda>b. Inr \<lparr>Items = [''A''], NextPageToken = []\<rparr>)
      [Go, Recv, Go, Go]
      \<lparr>PageSize = 0, PageToken = [], ExcludeNonAppCreatedData = False\<rparr>) = ZeroOfClosed"
proof -
  let ?client = "\<lambda>(k::nat) (hreq::http_request).
     (Inr \<lparr>RespBody = ''page'', CloseResult = None\<rparr> :: error + string http_response)"
  let ?dec = "\<lambda>b::string. (Inr \<lparr>Items = [''A''], NextPageToken = []\<rparr> :: error + string Page)"
  let ?fetch = "\<lambda>k r. fst (mediaitems_list (?client k) ?dec r)"
  let ?st = "\<lambda>tok (r::ListRequest). r\<lparr>PageToken := tok\<rparr>"
  let ?r0 = "\<lparr>PageSize = 0, PageToken = [], ExcludeNonAppCreatedData = False\<rparr>"
  have 1: "pc (exec ?fetch ?st [Go, Recv, Go, Go] (init ?r0)) = Halted"
    by (simp add: mediaitems_list_def step_def init_def Let_def)
  from C10_error_channel_never_closed[of ?fetch ?st "[Go, Recv, Go, Go]" ?r0] 1
  have "recv_item (exec ?fetch ?st [Go, Recv, Go, Go] (init ?r0)) = ZeroOfClosed
      \<and> recv_err (exec ?fetch ?st [Go, Recv, Go, Go] (init ?r0)) = Blocks"
    by blast
  then show ?thesis by (simp add: mediaitems_List_def)
qed

section \<open>Properties of the request builder\<close>

subsection \<open>The query of \<open>list\<close>\<close>

declare digits.simps [simp del]

lemma below_10:
  "d < 10 \<Longrightarrow> d = 0 \<or> d = 1 \<or> d = 2 \<or> d = 3 \<or> d = 4 \<or> d = 5 \<or> d = 6 \<or> d = 7 \<or> d = 8 \<or> d = (9::nat)"
  by arith

lemma unreserved_digit_char: "d < 10 \<Longrightarrow> unreserved (digit_char d)"
  by (drule below_10) (auto simp: digit_char_def unreserved_def)

lemma digit_val_digit_char: "d < 10 \<Longrightarrow> digit_val (digit_char d) = Some d"
  by (drule below_10) (auto simp: digit_char_def digit_val_def)

lemma unreserved_digits: "\<forall>c\<in>set (digits n). unreserved c"
proof (induction n rule: digits.induct)
  case (1 n)
  show ?case
  proof (cases "n < 10")
    case True
    then show ?thesis by (subst digits.simps) (simp add: unreserved_digit_char)
  next
    case False
    with 1 show ?thesis by (subst digits.simps) (simp add: unreserved_digit_char)
  qed
qed

lemma QueryEscape_Cons: "QueryEscape (c # s) = escape_byte c @ QueryEscape s"
  by (simp add: QueryEscape_def)

lemma QueryEscape_Nil: "QueryEscape [] = []"
  by (simp add: QueryEscape_def)

lemma QueryEscape_unreserved: "\<forall>c\<in>set s. unreserved c \<Longrightarrow> QueryEscape s = s"
  by (induction s) (auto simp: QueryEscape_Cons QueryEscape_Nil escape_byte_def)

lemma QueryEscape_Itoa: "QueryEscape (Itoa i) = Itoa i"
  by (rule QueryEscape_unreserved) (use unreserved_digits in \<open>auto simp: Itoa_def unreserved_def\<close>)

lemma QueryEscape_FormatBool: "QueryEscape (FormatBool b) = FormatBool b"
  by (simp add: FormatBool_def QueryEscape_def escape_byte_def unreserved_def)

lemma QueryEscape_keys:
  "QueryEscape ''pageSize'' = ''pageSize''"
  "QueryEscape ''pageToken'' = ''pageToken''"
  "QueryEscape ''excludeNonAppCreatedData'' = ''excludeNonAppCreatedData''"
  by (simp_all add: QueryEscape_def escape_byte_def unreserved_def)

lemma urlValues_eq:
  "urlValues r =
     (if PageSize r > 0 then [(''pageSize'', [Itoa (PageSize r)])] else []) @
     (if PageToken r \<noteq> [] then [(''pageToken'', [PageToken r])] else []) @
     [(''excludeNonAppCreatedData'', [FormatBool (ExcludeNonAppCreatedData r)])]"
  by (simp add: urlValues_def Values_Add_def PageSizeQueryKey_def PageTokenQueryKey_def
      ExcludeNonAppCreatedDataQueryKey_def)

lemma RawQuery_eq:
  "RawQuery r =
     ''excludeNonAppCreatedData='' @ FormatBool (ExcludeNonAppCreatedData r) @
     (if PageSize r > 0 then ''&pageSize='' @ Itoa (PageSize r) else []) @
     (if PageToken r \<noteq> [] then ''&pageToken='' @ QueryEscape (PageToken r) else [])"
  by (simp add: RawQuery_def urlValues_eq Values_Encode_def QueryEscape_keys
      QueryEscape_Itoa QueryEscape_FormatBool)

text \<open>
  C4, as amended. In the query of \<open>list\<close> the key \<open>pageSize\<close> stands exactly when
  \<open>PageSize\<close> is positive and the key \<open>pageToken\<close> exactly when \<open>PageToken\<close> is not empty, so
  a zero page size and an empty token are omitted. The key \<open>excludeNonAppCreatedData\<close>
  always stands, with the value \<open>true\<close> or \<open>false\<close>: the builder adds it without a test.
  The query string is the three parts in the order of their keys.
\<close>

theorem C4_zero_page_size_and_token_omitted:
  "map_of (urlValues r) PageSizeQueryKey =
     (if PageSize r > 0 then Some [Itoa (PageSize r)] else None)
   \<and> map_of (urlValues r) PageTokenQueryKey =
     (if PageToken r \<noteq> [] then Some [PageToken r] else None)
   \<and> map_of (urlValues r) ExcludeNonAppCreatedDataQueryKey =
     Some [FormatBool (ExcludeNonAppCreatedData r)]
   \<and> RawQuery r =
     ''excludeNonAppCreatedData='' @ FormatBool (ExcludeNonAppCreatedData r) @
     (if PageSize r > 0 then ''&pageSize='' @ Itoa (PageSize r) else []) @
     (if PageToken r \<noteq> [] then ''&pageToken='' @ QueryEscape (PageToken r) else [])"
proof -
  have "RawQuery r =
     ''excludeNonAppCreatedData='' @ FormatBool (ExcludeNonAppCreatedData r) @
     (if PageSize r > 0 then ''&pageSize='' @ Itoa (PageSize r) else []) @
     (if PageToken r \<noteq> [] then ''&pageToken='' @ QueryEscape (PageToken r) else [])"
    by (rule RawQuery_eq)
  then show ?thesis
    by (simp add: urlValues_eq PageSizeQueryKey_def PageTokenQueryKey_def
        ExcludeNonAppCreatedDataQueryKey_def)
qed

lemma digits_20: "digits 20 = ''20''"
  by (simp add: digits.simps digit_char_def)

theorem C4_zero_page_size_and_token_omitted_witness:
  "RawQuery \<lparr>PageSize = 20, PageToken = ''a b'', ExcludeNonAppCreatedData = True\<rparr> =
     ''excludeNonAppCreatedData=true&pageSize=20&pageToken=a+b''
   \<and> RawQuery \<lparr>PageSize = 0, PageToken = [], ExcludeNonAppCreatedData = True\<rparr> =
     ''excludeNonAppCreatedData=true''"
  using C4_zero_page_size_and_token_omitted
          [of "\<lparr>PageSize = 20, PageToken = ''a b'', ExcludeNonAppCreatedData = True\<rparr>"]
        C4_zero_page_size_and_token_omitted
          [of "\<lparr>PageSize = 0, PageToken = [], ExcludeNonAppCreatedData = True\<rparr>"]
  by (simp add: FormatBool_def Itoa_def digits_20 QueryEscape_def escape_byte_def unreserved_def)

text \<open>
  The counterexample to C4 as stated: the request with all three fields zero. Its query
  is not empty, it spells the value \<open>false\<close> out.
\<close>

theorem C4_false_is_serialized_counterexample:
  "RawQuery \<lparr>PageSize = 0, PageToken = [], ExcludeNonAppCreatedData = False\<rparr> =
     ''excludeNonAppCreatedData=false''
   \<and> map_of (urlValues \<lparr>PageSize = 0, PageToken = [], ExcludeNonAppCreatedData = False\<rparr>)
        ExcludeNonAppCreatedDataQueryKey = Some [''false'']
   \<and> URL_String PhotosLibraryScheme PhotosLibraryHost (JoinPath PhotosLibraryVersion ListAlbumsPath)
        (RawQuery \<lparr>PageSize = 0, PageToken = [], ExcludeNonAppCreatedData = False\<rparr>) =
     ''https://photoslibrary.googleapis.com/v1/albums?excludeNonAppCreatedData=false''"
  by (simp add: RawQuery_def urlValues_def Values_Encode_def Values_Add_def QueryEscape_def
      escape_byte_def unreserved_def FormatBool_def ExcludeNonAppCreatedDataQueryKey_def
      PageSizeQueryKey_def PageTokenQueryKey_def URL_String_def JoinPath_def
      PhotosLibraryScheme_def PhotosLibraryHost_def PhotosLibraryVersion_def ListAlbumsPath_def)

subsection \<open>Escaping and unescaping\<close>

lemma below_16:
  "d < 16 \<Longrightarrow> d = 0 \<or> d = 1 \<or> d = 2 \<or> d = 3 \<or> d = 4 \<or> d = 5 \<or> d = 6 \<or> d = 7 \<or> d = 8 \<or>
     d = 9 \<or> d = 10 \<or> d = 11 \<or> d = 12 \<or> d = 13 \<or> d = 14 \<or> d = (15::nat)"
  by arith

lemma unhex_upperhex: "d < 16 \<Longrightarrow> unhex (upperhex d) = Some d"
  by (drule below_16) (auto simp: upperhex_def unhex_def)

lemma upperhex_plain:
  "d < 16 \<Longrightarrow> upperhex d \<noteq> CHR ''&'' \<and> upperhex d \<noteq> CHR ''='' \<and> upperhex d \<noteq> CHR '';''"
  by (drule below_16) (auto simp: upperhex_def)

lemma unreserved_plain:
  "unreserved c \<Longrightarrow>
   c \<noteq> CHR ''&'' \<and> c \<noteq> CHR ''='' \<and> c \<noteq> CHR '';'' \<and> c \<noteq> CHR ''%'' \<and> c \<noteq> CHR ''+''"
  by (auto simp: unreserved_def)

lemma of_char_div_16: "(of_char c :: nat) div 16 < 16"
proof -
  have "(of_char c :: nat) < 256" by simp
  then show ?thesis by arith
qed

lemma escape_byte_plain:
  "x \<in> set (escape_byte c) \<Longrightarrow> x \<noteq> CHR ''&'' \<and> x \<noteq> CHR ''='' \<and> x \<noteq> CHR '';''"
  using unreserved_plain[of c] upperhex_plain[OF of_char_div_16, of c]
    upperhex_plain[of "of_char c mod 16"]
  by (auto simp: escape_byte_def split: if_splits)

lemma QueryEscape_plain:
  "x \<in> set (QueryEscape s) \<Longrightarrow> x \<noteq> CHR ''&'' \<and> x \<noteq> CHR ''='' \<and> x \<noteq> CHR '';''"
  using escape_byte_plain by (fastforce simp: QueryEscape_def)

lemma QueryUnescape_escape_byte:
  "QueryUnescape (escape_byte c @ t) = map_option (Cons c) (QueryUnescape t)"
proof (cases "unreserved c")
  case True
  with unreserved_plain[OF True] show ?thesis by (simp add: escape_byte_def)
next
  case False
  show ?thesis
  proof (cases "c = CHR '' ''")
    case True
    with False show ?thesis by (simp add: escape_byte_def)
  next
    case nsp: False
    have "char_of ((of_char c :: nat) div 16 * 16 + of_char c mod 16) = c"
      by simp
    with False nsp show ?thesis
      by (cases "QueryUnescape t")
         (simp_all add: escape_byte_def unhex_upperhex of_char_div_16)
  qed
qed

lemma QueryUnescape_QueryEscape: "QueryUnescape (QueryEscape s) = Some s"
  by (induction s) (simp_all add: QueryEscape_Nil QueryEscape_Cons QueryUnescape_escape_byte)

subsection \<open>Cutting and splitting\<close>

lemma cut_plain: "sep \<notin> set a \<Longrightarrow> cut sep (a @ sep # b) = (a, b)"
  by (induction a) auto

lemma split_on_plain: "sep \<notin> set a \<Longrightarrow> split_on sep a = [a]"
  by (induction a) auto

lemma split_on_sep: "sep \<notin> set a \<Longrightarrow> split_on sep (a @ sep # b) = a # split_on sep b"
  by (induction a) auto

subsection \<open>Numbers and truth values\<close>

lemma parse_digits_append:
  "parse_digits acc (s @ t) =
     (case parse_digits acc s of None \<Rightarrow> None | Some n \<Rightarrow> parse_digits n t)"
  by (induction s arbitrary: acc) (auto split: option.splits)

lemma parse_digits_digits: "parse_digits 0 (digits n) = Some n"
proof (induction n rule: digits.induct)
  case (1 n)
  show ?case
  proof (cases "n < 10")
    case True
    then show ?thesis by (subst digits.simps) (simp add: digit_val_digit_char)
  next
    case False
    with 1 show ?thesis
      by (subst digits.simps) (simp add: parse_digits_append digit_val_digit_char)
  qed
qed

lemma digits_not_Nil: "digits n \<noteq> []"
  by (subst digits.simps) simp

lemma digit_char_no_sign: "d < 10 \<Longrightarrow> digit_char d \<noteq> CHR ''-'' \<and> digit_char d \<noteq> CHR ''+''"
  by (drule below_10) (auto simp: digit_char_def)

lemma digits_no_sign: "\<forall>c\<in>set (digits n). c \<noteq> CHR ''-'' \<and> c \<noteq> CHR ''+''"
proof (induction n rule: digits.induct)
  case (1 n)
  show ?case
  proof (cases "n < 10")
    case True
    then show ?thesis by (subst digits.simps) (simp add: digit_char_no_sign)
  next
    case False
    with 1 show ?thesis by (subst digits.simps) (simp add: digit_char_no_sign)
  qed
qed

lemma Atoi_digits: "Atoi (digits n) = Some (int n)"
proof (cases "digits n")
  case Nil
  with digits_not_Nil show ?thesis by blast
next
  case (Cons c s)
  with digits_no_sign[of n] have "c \<noteq> CHR ''-''" "c \<noteq> CHR ''+''" by auto
  with Cons parse_digits_digits[of n] show ?thesis by (simp add: Atoi_def)
qed

lemma Atoi_Itoa: "Atoi (Itoa i) = Some i"
proof (cases "i < 0")
  case True
  with parse_digits_digits[of "nat (- i)"] digits_not_Nil[of "nat (- i)"] show ?thesis
    by (simp add: Atoi_def Itoa_def)
next
  case False
  with Atoi_digits[of "nat i"] show ?thesis by (simp add: Itoa_def)
qed

lemma ParseBool_FormatBool: "ParseBool (FormatBool b) = Some b"
  by (simp add: ParseBool_def FormatBool_def)

subsection \<open>Reading an encoded query\<close>

lemma query_pair_plain: "CHR ''&'' \<notin> set (query_pair kv) \<and> CHR '';'' \<notin> set (query_pair kv)"
  using QueryEscape_plain[of _ "fst kv"] QueryEscape_plain[of _ "snd kv"]
  by (auto simp: query_pair_def)

lemma split_on_join_amp:
  "kvs \<noteq> [] \<Longrightarrow> split_on (CHR ''&'') (join_amp (map query_pair kvs)) = map query_pair kvs"
proof (induction kvs rule: induct_list012)
  case 1
  then show ?case by simp
next
  case (2 kv)
  then show ?case by (simp add: split_on_plain query_pair_plain)
next
  case (3 kv kv' kvs)
  then show ?case by (simp add: split_on_sep query_pair_plain)
qed

lemma parse_pairs_query_pair:
  "parse_pairs (map query_pair kvs) m =
     Some (foldl (\<lambda>m kv. Values_Add (fst kv) (snd kv) m) m kvs)"
proof (induction kvs arbitrary: m)
  case Nil
  then show ?case by simp
next
  case (Cons kv kvs)
  have 1: "CHR '';'' \<notin> set (query_pair kv)" by (simp add: query_pair_plain)
  have 2: "query_pair kv \<noteq> []" by (simp add: query_pair_def)
  have "CHR ''='' \<notin> set (QueryEscape (fst kv))"
    using QueryEscape_plain[of "CHR ''=''" "fst kv"] by blast
  then have 3: "cut (CHR ''='') (query_pair kv) = (QueryEscape (fst kv), QueryEscape (snd kv))"
    by (simp add: query_pair_def cut_plain)
  from 1 2 3 Cons.IH show ?case
    by (simp add: QueryUnescape_QueryEscape)
qed

lemma ParseQuery_join_amp:
  "kvs \<noteq> [] \<Longrightarrow>
   ParseQuery (join_amp (map query_pair kvs)) =
     Some (foldl (\<lambda>m kv. Values_Add (fst kv) (snd kv) m) [] kvs)"
  by (simp add: ParseQuery_def split_on_join_amp parse_pairs_query_pair)

lemma RawQuery_pairs:
  "RawQuery r =
     join_amp (map query_pair
       ((''excludeNonAppCreatedData'', FormatBool (ExcludeNonAppCreatedData r)) #
        (if PageSize r > 0 then [(''pageSize'', Itoa (PageSize r))] else []) @
        (if PageToken r \<noteq> [] then [(''pageToken'', PageToken r)] else [])))"
  by (simp add: RawQuery_def urlValues_eq Values_Encode_def query_pair_def)

lemma parse_RawQuery_RawQuery:
  "parse_RawQuery (RawQuery r) = Some (r\<lparr>PageSize := max 0 (PageSize r)\<rparr>)"
  unfolding parse_RawQuery_def RawQuery_pairs
  by (subst ParseQuery_join_amp)
     (auto simp: read_ListRequest_def Values_Add_def Values_Get_def Atoi_Itoa ParseBool_FormatBool
        PageSizeQueryKey_def PageTokenQueryKey_def ExcludeNonAppCreatedDataQueryKey_def max_def)

lemma query_of_list_URL:
  "query_of_URL (URL (albums_list_request r)) = RawQuery r"
  "query_of_URL (URL (mediaitems_list_request r)) = RawQuery r"
proof -
  have a: "URL (albums_list_request r) =
             ''https://photoslibrary.googleapis.com/v1/albums'' @ CHR ''?'' # RawQuery r"
    by (simp add: albums_list_request_def URL_String_def JoinPath_def RawQuery_eq RawQuery_def[symmetric]
        PhotosLibraryScheme_def PhotosLibraryHost_def PhotosLibraryVersion_def ListAlbumsPath_def)
  show "query_of_URL (URL (albums_list_request r)) = RawQuery r"
    unfolding query_of_URL_def a by (subst cut_plain) simp_all
  have m: "URL (mediaitems_list_request r) =
             ''https://photoslibrary.googleapis.com/v1/mediaItems'' @ CHR ''?'' # RawQuery r"
    by (simp add: mediaitems_list_request_def URL_String_def JoinPath_def RawQuery_eq RawQuery_def[symmetric]
        PhotosLibraryScheme_def PhotosLibraryHost_def PhotosLibraryVersion_def ListMediaItemsPath_def)
  show "query_of_URL (URL (mediaitems_list_request r)) = RawQuery r"
    unfolding query_of_URL_def m by (subst cut_plain) simp_all
qed

subsection \<open>Reading the body of \<open>search\<close>\<close>

lemma ValidString_json_string: "ValidString s \<Longrightarrow> json_string s = s"
proof (induction s rule: ValidString.induct)
  case 1
  then show ?case by simp
next
  case (2 c s)
  show ?case
  proof (cases "in_range 0 127 c")
    case True
    with 2 show ?thesis by simp
  next
    case n1: False
    show ?thesis
    proof (cases "in_range 194 223 c")
      case True
      with n1 "2.prems" obtain c2 s2 where s: "s = c2 # s2" "in_range 128 191 c2" "ValidString s2"
        by (cases s) auto
      with n1 True "2.IH"(2)[OF n1 True s(1)] show ?thesis by simp
    next
      case n2: False
      show ?thesis
      proof (cases "in_range 224 239 c")
        case True
        with n1 n2 "2.prems" obtain c2 c3 s3 where
          s: "s = c2 # c3 # s3" "second_of_3 c c2" "in_range 128 191 c3" "ValidString s3"
          by (cases s; cases "tl s") auto
        with n1 n2 True "2.IH"(3)[OF n1 n2 True s(1) refl] show ?thesis by simp
      next
        case n3: False
        show ?thesis
        proof (cases "in_range 240 244 c")
          case True
          with n1 n2 n3 "2.prems" obtain c2 c3 c4 s4 where
            s: "s = c2 # c3 # c4 # s4" "second_of_4 c c2" "in_range 128 191 c3"
              "in_range 128 191 c4" "ValidString s4"
            by (cases s; cases "tl s"; cases "tl (tl s)") auto
          with n1 n2 n3 True "2.IH"(4)[OF n1 n2 n3 True s(1) refl refl] show ?thesis by simp
        next
          case False
          with n1 n2 n3 "2.prems" show ?thesis by simp
        qed
      qed
    qed
  qed
qed

lemma Unmarshal_Marshal:
  assumes "ValidString (AlbumID s)" "ValidString (SearchPageToken s)" "ValidString (OrderBy s)"
  shows "Unmarshal (Marshal s) = Some s"
proof -
  have rng: "- (2 ^ 63) \<le> sint (SearchPageSize s)" "sint (SearchPageSize s) < 2 ^ 63"
    using sint_ge[of "SearchPageSize s"] sint_lt[of "SearchPageSize s"] by simp_all
  have js: "json_string (AlbumID s) = AlbumID s"
    "json_string (SearchPageToken s) = SearchPageToken s"
    "json_string (OrderBy s) = OrderBy s"
    using assms by (simp_all add: ValidString_json_string)
  have m: "Marshal s =
    JObject
      ((if AlbumID s \<noteq> [] then [(''albumId'', JString (AlbumID s))] else []) @
       (if SearchPageSize s \<noteq> 0 then [(''pageSize'', JNumber (sint (SearchPageSize s)))] else []) @
       [(''PageToken'', JString (SearchPageToken s))] @
       [(''filters'', JObject [])] @
       (if OrderBy s \<noteq> [] then [(''orderBy'', JString (OrderBy s))] else []))"
    by (simp add: Marshal_def js)
  show ?thesis
    unfolding m
    by (cases s)
       (use rng js in \<open>auto simp: Unmarshal_def set_member_def to_lower_def\<close>)
qed

text \<open>
  C9, as amended. The query of the URL that \<open>list\<close> builds reads back as the request with
  \<open>PageSize\<close> replaced by zero where it was negative: every request with a page size that
  is not negative reads back as itself, the omitted zero page size and empty token as the
  zero values. The body that \<open>search\<close> builds reads back as the request when the three
  string fields of the request are valid UTF-8.
\<close>

theorem C9_built_request_reads_back:
  "(0 \<le> PageSize r \<longrightarrow>
      parse_RawQuery (query_of_URL (URL (albums_list_request r))) = Some r
    \<and> parse_RawQuery (query_of_URL (URL (mediaitems_list_request r))) = Some r)
   \<and> parse_RawQuery (query_of_URL (URL (albums_list_request r))) =
       Some (r\<lparr>PageSize := max 0 (PageSize r)\<rparr>)
   \<and> parse_RawQuery (query_of_URL (URL (mediaitems_list_request r))) =
       Some (r\<lparr>PageSize := max 0 (PageSize r)\<rparr>)
   \<and> (ValidString (AlbumID s) \<and> ValidString (SearchPageToken s) \<and> ValidString (OrderBy s) \<longrightarrow>
        (case Body (search_request s) of None \<Rightarrow> None | Some j \<Rightarrow> Unmarshal j) = Some s)"
proof -
  have 1: "parse_RawQuery (query_of_URL (URL (albums_list_request r))) =
       Some (r\<lparr>PageSize := max 0 (PageSize r)\<rparr>)"
    by (simp add: query_of_list_URL parse_RawQuery_RawQuery)
  have 2: "parse_RawQuery (query_of_URL (URL (mediaitems_list_request r))) =
       Some (r\<lparr>PageSize := max 0 (PageSize r)\<rparr>)"
    by (simp add: query_of_list_URL parse_RawQuery_RawQuery)
  have 3: "(case Body (search_request s) of None \<Rightarrow> None | Some j \<Rightarrow> Unmarshal j) = Some s"
    if "ValidString (AlbumID s)" "ValidString (SearchPageToken s)" "ValidString (OrderBy s)"
    using that by (simp add: search_request_def Unmarshal_Marshal)
  have "r\<lparr>PageSize := max 0 (PageSize r)\<rparr> = r" if "0 \<le> PageSize r"
    using that by (simp add: max_def)
  with 1 2 3 show ?thesis by simp
qed

theorem C9_built_request_reads_back_witness:
  "parse_RawQuery (query_of_URL (URL (albums_list_request
      \<lparr>PageSize = 20, PageToken = ''a b&c'', ExcludeNonAppCreatedData = True\<rparr>))) =
     Some \<lparr>PageSize = 20, PageToken = ''a b&c'', ExcludeNonAppCreatedData = True\<rparr>
   \<and> (case Body (search_request
          \<lparr>AlbumID = [], SearchPageSize = 0, SearchPageToken = ''a'', Filters = (), OrderBy = []\<rparr>) of
        None \<Rightarrow> None | Some j \<Rightarrow> Unmarshal j) =
     Some \<lparr>AlbumID = [], SearchPageSize = 0, SearchPageToken = ''a'', Filters = (), OrderBy = []\<rparr>"
proof -
  have 1: "(0::int) \<le> PageSize \<lparr>PageSize = 20, PageToken = ''a b&c'', ExcludeNonAppCreatedData = True\<rparr>"
    by simp
  have 2: "ValidString (AlbumID \<lparr>AlbumID = [], SearchPageSize = 0, SearchPageToken = ''a'', Filters = (), OrderBy = []\<rparr>)
    \<and> ValidString (SearchPageToken \<lparr>AlbumID = [], SearchPageSize = 0, SearchPageToken = ''a'', Filters = (), OrderBy = []\<rparr>)
    \<and> ValidString (OrderBy \<lparr>AlbumID = [], SearchPageSize = 0, SearchPageToken = ''a'', Filters = (), OrderBy = []\<rparr>)"
    by (simp add: in_range_def)
  from 1 2 C9_built_request_reads_back
         [of "\<lparr>PageSize = 20, PageToken = ''a b&c'', ExcludeNonAppCreatedData = True\<rparr>"
             "\<lparr>AlbumID = [], SearchPageSize = 0, SearchPageToken = ''a'', Filters = (), OrderBy = []\<rparr>"]
  show ?thesis by blast
qed

text \<open>
  The counterexample to C9 as stated: the page size \<open>-1\<close> is not the default and is not
  recovered. The builder tests \<open>PageSize > 0\<close>, so the request built for it is the request
  built for the page size zero, and no reader can tell the two apart. Nor is a string
  that is not valid UTF-8 recovered from the body of \<open>search\<close>: the album id of the one
  byte \<open>FF\<close> reads back as the three bytes of the replacement character.
\<close>

theorem C9_negative_page_size_counterexample:
  "parse_RawQuery (query_of_URL (URL (albums_list_request
      \<lparr>PageSize = - 1, PageToken = [], ExcludeNonAppCreatedData = False\<rparr>))) =
     Some \<lparr>PageSize = 0, PageToken = [], ExcludeNonAppCreatedData = False\<rparr>
   \<and> albums_list_request \<lparr>PageSize = - 1, PageToken = [], ExcludeNonAppCreatedData = False\<rparr> =
     albums_list_request \<lparr>PageSize = 0, PageToken = [], ExcludeNonAppCreatedData = False\<rparr>
   \<and> URL (albums_list_request \<lparr>PageSize = - 1, PageToken = [], ExcludeNonAppCreatedData = False\<rparr>) =
     ''https://photoslibrary.googleapis.com/v1/albums?excludeNonAppCreatedData=false''
   \<and> (case Body (search_request
          \<lparr>AlbumID = [CHR 0xFF], SearchPageSize = 0, SearchPageToken = [], Filters = (),
             OrderBy = []\<rparr>) of
        None \<Rightarrow> None | Some j \<Rightarrow> Unmarshal j) =
     Some \<lparr>AlbumID = [CHR 0xEF, CHR 0xBF, CHR 0xBD], SearchPageSize = 0, SearchPageToken = [],
            Filters = (), OrderBy = []\<rparr>"
proof -
  have "parse_RawQuery (query_of_URL (URL (albums_list_request
      \<lparr>PageSize = - 1, PageToken = [], ExcludeNonAppCreatedData = False\<rparr>))) =
     Some \<lparr>PageSize = 0, PageToken = [], ExcludeNonAppCreatedData = False\<rparr>"
    by (simp add: query_of_list_URL parse_RawQuery_RawQuery)
  moreover have "Values_Encode (urlValues \<lparr>PageSize = - 1, PageToken = [], ExcludeNonAppCreatedData = False\<rparr>)
      = ''excludeNonAppCreatedData=false''"
    using RawQuery_eq[of "\<lparr>PageSize = - 1, PageToken = [], ExcludeNonAppCreatedData = False\<rparr>"]
    by (simp add: RawQuery_def FormatBool_def)
  moreover have "Values_Encode (urlValues \<lparr>PageSize = 0, PageToken = [], ExcludeNonAppCreatedData = False\<rparr>)
      = ''excludeNonAppCreatedData=false''"
    using RawQuery_eq[of "\<lparr>PageSize = 0, PageToken = [], ExcludeNonAppCreatedData = False\<rparr>"]
    by (simp add: RawQuery_def FormatBool_def)
  moreover have "(case Body (search_request
          \<lparr>AlbumID = [CHR 0xFF], SearchPageSize = 0, SearchPageToken = [], Filters = (),
             OrderBy = []\<rparr>) of
        None \<Rightarrow> None | Some j \<Rightarrow> Unmarshal j) =
     Some \<lparr>AlbumID = [CHR 0xEF, CHR 0xBF, CHR 0xBD], SearchPageSize = 0, SearchPageToken = [],
            Filters = (), OrderBy = []\<rparr>"
    by (simp add: search_request_def Marshal_def Unmarshal_def set_member_def to_lower_def
        in_range_def second_of_3_def RuneError_def)
  ultimately show ?thesis
    by (simp add: albums_list_request_def URL_String_def JoinPath_def
        PhotosLibraryScheme_def PhotosLibraryHost_def PhotosLibraryVersion_def ListAlbumsPath_def)
qed

section \<open>Properties of the single-page fetch and of the redirect handler\<close>

text \<open>
  C5 does not hold of the code. When the transport call succeeds and the decoding of the
  body fails, each of the three fetches returns the error from the branch of
  \<open>Decode\<close>, before the statement \<open>resp.Body.Close()\<close>: the body stays open. The last two
  conjuncts are the albums fetch on a response that is not JSON, and on one that is, where
  the body is closed.
\<close>

theorem C5_decode_error_leaves_body_open:
  "albums_list (\<lambda>hreq. Inr resp) (\<lambda>body. Inl err) listAlbumsRequest = (Inl err, BodyOpen)
   \<and> mediaitems_list (\<lambda>hreq. Inr resp) (\<lambda>body. Inl err) listRequest = (Inl err, BodyOpen)
   \<and> search (\<lambda>hreq. Inr resp) (\<lambda>body. Inl err) searchRequest = (Inl err, BodyOpen)
   \<and> albums_list (\<lambda>hreq. Inr \<lparr>RespBody = ''<html>502 Bad Gateway</html>'', CloseResult = None\<rparr>)
        (\<lambda>body. if body = ''{}'' then Inr \<lparr>Items = [], NextPageToken = []\<rparr>
                 else Inl (DecodeError ''invalid character''))
        \<lparr>PageSize = 0, PageToken = [], ExcludeNonAppCreatedData = False\<rparr>
      = (Inl (DecodeError ''invalid character'') :: error + string Page, BodyOpen)
   \<and> albums_list (\<lambda>hreq. Inr \<lparr>RespBody = ''{}'', CloseResult = None\<rparr>)
        (\<lambda>body. if body = ''{}'' then Inr \<lparr>Items = [], NextPageToken = []\<rparr>
                 else Inl (DecodeError ''invalid character''))
        \<lparr>PageSize = 0, PageToken = [], ExcludeNonAppCreatedData = False\<rparr>
      = (Inr \<lparr>Items = [] :: string list, NextPageToken = []\<rparr>, BodyClosed)"
  by (simp add: albums_list_def mediaitems_list_def search_def)

text \<open>
  C6 does not hold of the code. The handler compares the \<open>state\<close> parameter of the
  callback with itself, so no callback is refused: a callback with a state that is not
  the one \<open>NewClient\<close> generated is answered with status 200, its code is sent on the code
  channel, and \<open>NewClient\<close> goes on to the token exchange with it.
\<close>

theorem C6_state_is_not_checked:
  "handler [(''state'', [''forged'']), (''code'', [''c0de''])] =
     \<lparr>StatusCode = 200, Written = ''Authenticated Successfully'', CodeSent = Some ''c0de''\<rparr>
   \<and> NewClient_on_callback ''AAAAAAAAAAAAAA=='' [(''state'', [''forged'']), (''code'', [''c0de''])] =
     ExchangeCalled ''c0de''
   \<and> StatusCode (handler query) = 200
   \<and> CodeSent (handler query) = Some (Values_Get query ''code'')"
  by (simp add: handler_def NewClient_on_callback_def Values_Get_def stateURLQueryKey_def)

end
